theory Spec2Isabelle
  imports Complex_Main
begin

section \<open>Errors and tensor primitives\<close>

text \<open>
  The speculative-decoding core of \<^verbatim>\<open>whisper_medusa/models/medusa_utils.py\<close>, embedded
  shallowly.  Tensors are nested lists (outermost dimension first), token ids and node ids are
  numbers.  Logits and probabilities are reals where they are only compared, and values of an
  arithmetic with its own rounding where the code computes with them.
  Every exception of the source is a value: a function that may raise returns
  \<open>error + 'a\<close>, with \<open>Inl\<close> carrying the exception class.
\<close>

datatype error = ValueError | IndexError | ZeroDivisionError | RuntimeError | TypeError

definition and_then :: "error + 'a \<Rightarrow> ('a \<Rightarrow> error + 'b) \<Rightarrow> error + 'b" where
  "and_then m f = (case m of Inl e \<Rightarrow> Inl e | Inr x \<Rightarrow> f x)"

text \<open>\<^verbatim>\<open>torch.argmax\<close> along one dimension: the index of the first maximal value.\<close>

fun argmax :: "'a::linorder list \<Rightarrow> nat" where
  "argmax [] = 0"
| "argmax (x # xs) = (if (\<forall>y\<in>set xs. y \<le> x) then 0 else Suc (argmax xs))"

text \<open>\<^verbatim>\<open>torch.cumprod\<close> along one dimension.\<close>

fun cumprod_from :: "'a::monoid_mult \<Rightarrow> 'a list \<Rightarrow> 'a list" where
  "cumprod_from acc [] = []"
| "cumprod_from acc (x # xs) = (acc * x) # cumprod_from (acc * x) xs"

definition cumprod :: "'a::monoid_mult list \<Rightarrow> 'a list" where
  "cumprod xs = cumprod_from 1 xs"

text \<open>The maximum of a non-empty tensor, scanned from its first element.\<close>

fun max_from :: "'a::linorder \<Rightarrow> 'a list \<Rightarrow> 'a" where
  "max_from m [] = m"
| "max_from m (x # xs) = max_from (max m x) xs"

section \<open>evaluate_posterior\<close>

text \<open>
  \<open>logits\<close> has shape paths \<times> positions \<times> vocabulary, \<open>candidates\<close> has shape
  paths \<times> positions.  \<^verbatim>\<open>candidates[:, 1:]\<close> is \<open>map tl\<close>, \<^verbatim>\<open>logits[:, :-1]\<close> is
  \<open>map butlast\<close>.  The model is meant for tensors of these matching shapes (the predicates
  \<open>shape3\<close> and \<open>shape2\<close> below); what torch does on other shapes (broadcasting) is outside it.
  In this section logits and probabilities are exact reals, the function with rounding left out;
  the comparisons of the greedy branch do not round, and the facts about the order of thresholds
  are proved here.  The section after it gives the same function over the arithmetic of the
  tensors.
\<close>

definition shape2 :: "nat \<Rightarrow> nat \<Rightarrow> 'a list list \<Rightarrow> bool" where
  "shape2 P D t \<longleftrightarrow> length t = P \<and> (\<forall>r\<in>set t. length r = D)"

definition shape3 :: "nat \<Rightarrow> nat \<Rightarrow> nat \<Rightarrow> 'a list list list \<Rightarrow> bool" where
  "shape3 P D V t \<longleftrightarrow> length t = P \<and> (\<forall>r\<in>set t. shape2 D V r)"

definition accept_lengths :: "nat list list \<Rightarrow> nat list" where
  "accept_lengths posterior_mask = map (\<lambda>m. sum_list (cumprod m)) posterior_mask"

definition greedy_mask :: "'a::linorder list list list \<Rightarrow> nat list list \<Rightarrow> nat list list" where
  "greedy_mask logits candidates =
     map2 (\<lambda>cs ls. map2 (\<lambda>c l. if c = argmax l then 1 else 0) (tl cs) (butlast ls))
       candidates logits"

definition softmax :: "real list \<Rightarrow> real list" where
  "softmax xs = map (\<lambda>x. exp x / sum_list (map exp xs)) xs"

definition posterior_prob :: "real list list list \<Rightarrow> real \<Rightarrow> real list list list" where
  "posterior_prob logits temperature =
     map (\<lambda>ls. map (\<lambda>l. softmax (map (\<lambda>x. x / temperature) l)) (butlast ls)) logits"

definition candidates_prob :: "'a list list list \<Rightarrow> nat list list \<Rightarrow> 'a list list" where
  "candidates_prob prob candidates =
     map2 (\<lambda>cs ps. map2 (\<lambda>c p. p ! c) (tl cs) ps) candidates prob"

definition entropy :: "real list \<Rightarrow> real" where
  "entropy p = - sum_list (map (\<lambda>q. q * ln (q + 1 / 100000)) p)"

definition posterior_entropy :: "real list list list \<Rightarrow> real list list" where
  "posterior_entropy prob = map (map entropy) prob"

definition threshold :: "real list list list \<Rightarrow> real \<Rightarrow> real \<Rightarrow> real list list" where
  "threshold prob posterior_threshold posterior_alpha =
     map (map (\<lambda>h. min posterior_threshold (exp (- h) * posterior_alpha)))
       (posterior_entropy prob)"

definition typical_mask :: "'a::linorder list list \<Rightarrow> 'a list list \<Rightarrow> nat list list" where
  "typical_mask cprob thr = map2 (map2 (\<lambda>c t. if c > t then 1 else 0)) cprob thr"

definition likelihood :: "real list list \<Rightarrow> nat list \<Rightarrow> nat \<Rightarrow> real list" where
  "likelihood cprob best_candidates accept_length =
     map (\<lambda>p. sum_list (map ln (take accept_length (cprob ! p)))) best_candidates"

definition gather_ok :: "'a list list list \<Rightarrow> nat list list \<Rightarrow> bool" where
  "gather_ok prob candidates \<longleftrightarrow>
     list_all2 (\<lambda>cs ps. list_all2 (\<lambda>c p. c < length p) (tl cs) ps) candidates prob"

definition evaluate_posterior ::
  "real list list list \<Rightarrow> nat list list \<Rightarrow> real \<Rightarrow> real \<Rightarrow> real \<Rightarrow> error + (nat \<times> nat)" where
  "evaluate_posterior logits candidates temperature posterior_threshold posterior_alpha =
     (if \<exists>ls\<in>set logits. \<exists>l\<in>set (butlast ls). l = [] then Inl IndexError
      else if temperature = 0 then
        (case accept_lengths (greedy_mask logits candidates) of
           [] \<Rightarrow> Inl RuntimeError
         | c # cs \<Rightarrow>
             let accept_length = max_from c cs in
             if accept_length = 0 then Inr (0, accept_length)
             else Inr (argmax (c # cs), accept_length))
      else
        let prob = posterior_prob logits temperature in
        if \<not> gather_ok prob candidates then Inl RuntimeError
        else
          let cprob = candidates_prob prob candidates;
              thr = threshold prob posterior_threshold posterior_alpha;
              cal = accept_lengths (typical_mask cprob thr)
          in (case cal of
                [] \<Rightarrow> Inl RuntimeError
              | c # cs \<Rightarrow>
                  let accept_length = max_from c cs in
                  if accept_length = 0 then Inr (0, accept_length)
                  else
                    let best_candidates = filter (\<lambda>p. cal ! p = accept_length) [0..<length cal]
                    in Inr (best_candidates ! argmax (likelihood cprob best_candidates accept_length),
                            accept_length)))"

text \<open>
  The vocabulary of the claims about acceptance: \<open>longest_prefix acc D n\<close> says that \<open>n\<close> is the
  length of the longest all-accepted prefix of the \<open>D\<close> positions: every position before \<open>n\<close> is
  accepted and position \<open>n\<close>, when there is one, is not.
\<close>

definition longest_prefix :: "(nat \<Rightarrow> bool) \<Rightarrow> nat \<Rightarrow> nat \<Rightarrow> bool" where
  "longest_prefix acc D n \<longleftrightarrow> n \<le> D \<and> (\<forall>i<n. acc i) \<and> (n < D \<longrightarrow> \<not> acc n)"

definition greedy_match :: "real list list list \<Rightarrow> nat list list \<Rightarrow> nat \<Rightarrow> nat \<Rightarrow> bool" where
  "greedy_match logits candidates p i \<longleftrightarrow> candidates ! p ! Suc i = argmax (logits ! p ! i)"

definition typical_accept ::
  "real list list list \<Rightarrow> nat list list \<Rightarrow> real \<Rightarrow> real \<Rightarrow> real \<Rightarrow> nat \<Rightarrow> nat \<Rightarrow> bool" where
  "typical_accept logits candidates temperature posterior_threshold posterior_alpha p i \<longleftrightarrow>
     softmax (map (\<lambda>x. x / temperature) (logits ! p ! i)) ! (candidates ! p ! Suc i)
       > min posterior_threshold
           (exp (- entropy (softmax (map (\<lambda>x. x / temperature) (logits ! p ! i)))) * posterior_alpha)"

definition log_likelihood :: "real list list list \<Rightarrow> nat list list \<Rightarrow> real \<Rightarrow> nat \<Rightarrow> nat \<Rightarrow> real" where
  "log_likelihood logits candidates temperature p n =
     sum_list (map (\<lambda>i. ln (softmax (map (\<lambda>x. x / temperature) (logits ! p ! i))
                              ! (candidates ! p ! Suc i))) [0..<n])"

definition tokens_in_range :: "nat \<Rightarrow> nat list list \<Rightarrow> bool" where
  "tokens_in_range V candidates \<longleftrightarrow> (\<forall>cs\<in>set candidates. \<forall>c\<in>set cs. c < V)"

section \<open>evaluate_posterior in machine arithmetic\<close>

text \<open>
  The tensors of the source hold floating-point numbers, and every operation on them rounds.
  The record \<open>float_ops\<close> collects the operations that the sampling branch of
  \<^verbatim>\<open>evaluate_posterior\<close> applies to them; the type \<open>'f\<close> stands for the ordered values of the
  tensor's dtype (the comparison operators order them; NaN is outside this model).  Python
  scalars (\<^verbatim>\<open>temperature\<close>, \<^verbatim>\<open>posterior_threshold\<close>, \<^verbatim>\<open>posterior_alpha\<close>, \<^verbatim>\<open>1e-5\<close>) are reals and
  enter only through the operations that take a scalar.  \<open>fsoftmax xs i\<close> is entry \<open>i\<close> of
  \<^verbatim>\<open>torch.softmax(xs, dim=-1)\<close>.
\<close>

record 'f float_ops =
  fdiv_scalar :: "'f \<Rightarrow> real \<Rightarrow> 'f"
  fsoftmax :: "'f list \<Rightarrow> nat \<Rightarrow> 'f"
  fadd_scalar :: "'f \<Rightarrow> real \<Rightarrow> 'f"
  flog :: "'f \<Rightarrow> 'f"
  fmul :: "'f \<Rightarrow> 'f \<Rightarrow> 'f"
  fsum :: "'f list \<Rightarrow> 'f"
  fneg :: "'f \<Rightarrow> 'f"
  fone :: "'f"
  fmul_scalar :: "'f \<Rightarrow> real \<Rightarrow> 'f"
  fexp :: "'f \<Rightarrow> 'f"

definition softmax_fp :: "'f float_ops \<Rightarrow> 'f list \<Rightarrow> 'f list" where
  "softmax_fp fl xs = map (fsoftmax fl xs) [0..<length xs]"

definition posterior_prob_fp :: "'f float_ops \<Rightarrow> 'f list list list \<Rightarrow> real \<Rightarrow> 'f list list list" where
  "posterior_prob_fp fl logits temperature =
     map (\<lambda>ls. map (\<lambda>l. softmax_fp fl (map (\<lambda>x. fdiv_scalar fl x temperature) l)) (butlast ls))
       logits"

definition entropy_fp :: "'f float_ops \<Rightarrow> 'f list \<Rightarrow> 'f" where
  "entropy_fp fl p =
     fneg fl (fsum fl (map (\<lambda>q. fmul fl q (flog fl (fadd_scalar fl q (1 / 100000)))) p))"

definition posterior_entropy_fp :: "'f float_ops \<Rightarrow> 'f list list list \<Rightarrow> 'f list list" where
  "posterior_entropy_fp fl prob = map (map (entropy_fp fl)) prob"

definition threshold_fp ::
  "'f::linorder float_ops \<Rightarrow> 'f list list list \<Rightarrow> real \<Rightarrow> real \<Rightarrow> 'f list list" where
  "threshold_fp fl prob posterior_threshold posterior_alpha =
     map (map (\<lambda>h. min (fmul_scalar fl (fone fl) posterior_threshold)
                         (fmul_scalar fl (fexp fl (fneg fl h)) posterior_alpha)))
       (posterior_entropy_fp fl prob)"

definition likelihood_fp :: "'f float_ops \<Rightarrow> 'f list list \<Rightarrow> nat list \<Rightarrow> nat \<Rightarrow> 'f list" where
  "likelihood_fp fl cprob best_candidates accept_length =
     map (\<lambda>p. fsum fl (map (flog fl) (take accept_length (cprob ! p)))) best_candidates"

definition evaluate_posterior_fp ::
  "'f::linorder float_ops \<Rightarrow> 'f list list list \<Rightarrow> nat list list \<Rightarrow> real \<Rightarrow> real \<Rightarrow> real \<Rightarrow>
   error + (nat \<times> nat)" where
  "evaluate_posterior_fp fl logits candidates temperature posterior_threshold posterior_alpha =
     (if \<exists>ls\<in>set logits. \<exists>l\<in>set (butlast ls). l = [] then Inl IndexError
      else if temperature = 0 then
        (case accept_lengths (greedy_mask logits candidates) of
           [] \<Rightarrow> Inl RuntimeError
         | c # cs \<Rightarrow>
             let accept_length = max_from c cs in
             if accept_length = 0 then Inr (0, accept_length)
             else Inr (argmax (c # cs), accept_length))
      else
        let prob = posterior_prob_fp fl logits temperature in
        if \<not> gather_ok prob candidates then Inl RuntimeError
        else
          let cprob = candidates_prob prob candidates;
              thr = threshold_fp fl prob posterior_threshold posterior_alpha;
              cal = accept_lengths (typical_mask cprob thr)
          in (case cal of
                [] \<Rightarrow> Inl RuntimeError
              | c # cs \<Rightarrow>
                  let accept_length = max_from c cs in
                  if accept_length = 0 then Inr (0, accept_length)
                  else
                    let best_candidates = filter (\<lambda>p. cal ! p = accept_length) [0..<length cal]
                    in Inr (best_candidates ! argmax (likelihood_fp fl cprob best_candidates accept_length),
                            accept_length)))"



text \<open>Exact arithmetic over the reals is one instance; \<open>evaluate_posterior\<close> above is this instance.\<close>

definition real_ops :: "real float_ops" where
  "real_ops = \<lparr> fdiv_scalar = (/), fsoftmax = (\<lambda>xs i. exp (xs ! i) / sum_list (map exp xs)),
       fadd_scalar = (+), flog = ln, fmul = (*), fsum = sum_list, fneg = uminus, fone = 1,
       fmul_scalar = (*), fexp = exp \<rparr>"

section \<open>update_inference_inputs\<close>

text \<open>
  \<open>input_ids\<close> has shape batch \<times> length, \<open>candidates\<close> paths \<times> positions, \<open>logits\<close>
  paths \<times> positions \<times> vocabulary, \<open>unfinished_sequences\<close> is one flag per sequence.  Tokens are
  integers here, since the source does arithmetic on them.  \<open>eos_token_id\<close> and \<open>pad_token_id\<close>
  are \<open>None\<close> when not configured.  The call \<^verbatim>\<open>model._update_medusa_outputs\<close> belongs to the
  model, changes only \<open>outputs\<close> and is left out; the function returns
  \<^verbatim>\<open>(input_ids, logits, new_token, next_tokens)\<close>.
\<close>

text \<open>An elementwise operation on a row and a one-dimensional tensor, with torch's broadcasting.\<close>

definition broadcast2 :: "(int \<Rightarrow> int \<Rightarrow> int) \<Rightarrow> int list \<Rightarrow> int list \<Rightarrow> error + int list" where
  "broadcast2 f xs ys =
     (if length xs = length ys then Inr (map2 f xs ys)
      else if length ys = 1 then Inr (map (\<lambda>x. f x (hd ys)) xs)
      else if length xs = 1 then Inr (map (f (hd xs)) ys)
      else Inl RuntimeError)"

text \<open>
  \<^verbatim>\<open>next_tokens\<close> before the padding override (lines 656 to 661):
  \<^verbatim>\<open>candidates[None, best_candidate, : accept_length + 1]\<close>, followed, when \<open>use_base_logits\<close> is
  set, by \<^verbatim>\<open>torch.argmax(logits[:, 0], dim=-1)\<close>: one token for every path of \<open>logits\<close>.
\<close>

definition selected_tokens ::
  "int list list \<Rightarrow> nat \<Rightarrow> nat \<Rightarrow> real list list list \<Rightarrow> bool \<Rightarrow> int list" where
  "selected_tokens candidates best_candidate accept_length logits use_base_logits =
     take (accept_length + 1) (candidates ! best_candidate) @
     (if use_base_logits then map (\<lambda>ls. int (argmax (hd ls))) logits else [])"

text \<open>
  Lines 662 to 670: finished sequences get the padding token.  \<open>ValueError\<close> when
  \<open>eos_token_id\<close> is set and \<open>pad_token_id\<close> is not.
\<close>

definition pad_finished :: "int list \<Rightarrow> int option \<Rightarrow> int option \<Rightarrow> int list \<Rightarrow> error + int list" where
  "pad_finished next_tokens eos_token_id pad_token_id unfinished_sequences =
     (case eos_token_id of
        None \<Rightarrow> Inr next_tokens
      | Some eos \<Rightarrow>
          (case pad_token_id of
             None \<Rightarrow> Inl ValueError
           | Some pad \<Rightarrow>
               and_then (broadcast2 (*) next_tokens unfinished_sequences)
                 (\<lambda>kept. broadcast2 (+) kept (map (\<lambda>u. pad * (1 - u)) unfinished_sequences))))"

definition update_inference_inputs ::
  "int list list \<Rightarrow> int list list \<Rightarrow> nat \<Rightarrow> nat \<Rightarrow> int list list \<Rightarrow> real list list list \<Rightarrow> int \<Rightarrow>
   int option \<Rightarrow> int option \<Rightarrow> int list \<Rightarrow> bool \<Rightarrow>
   error + (int list list \<times> real list list list \<times> int \<times> int list list)" where
  "update_inference_inputs input_ids candidates best_candidate accept_length retrieve_indices
     logits new_token eos_token_id pad_token_id unfinished_sequences use_base_logits =
     (if length retrieve_indices \<le> best_candidate then Inl IndexError
      else if length candidates \<le> best_candidate then Inl IndexError
      else if use_base_logits \<and> (\<exists>ls\<in>set logits. ls = [] \<or> hd ls = []) then Inl IndexError
      else
        and_then
          (pad_finished
             (selected_tokens candidates best_candidate accept_length logits use_base_logits)
             eos_token_id pad_token_id unfinished_sequences)
          (\<lambda>next_tokens.
             if length input_ids \<noteq> 1 then Inl RuntimeError
             else if length logits \<le> best_candidate then Inl IndexError
             else Inr ([hd input_ids @ next_tokens],
                       [take 1 (drop accept_length (logits ! best_candidate))],
                       new_token + int accept_length + (if use_base_logits then 2 else 1),
                       [next_tokens])))"

section \<open>generate_candidates\<close>

text \<open>
  \<open>medusa_logits\<close> has shape heads \<times> batch \<times> sequence \<times> vocabulary, \<open>logits\<close> has shape
  batch \<times> sequence \<times> vocabulary: the function reads \<^verbatim>\<open>medusa_logits[i, 0, -1]\<close> as the scores
  of the tokens, so \<open>medusa_logits\<close> has one dimension more than its docstring lists.  \<open>map_e\<close>
  runs a step that may raise over a list and stops at the first exception.
\<close>

fun map_e :: "('a \<Rightarrow> error + 'b) \<Rightarrow> 'a list \<Rightarrow> error + 'b list" where
  "map_e f [] = Inr []"
| "map_e f (x # xs) = and_then (f x) (\<lambda>y. and_then (map_e f xs) (\<lambda>ys. Inr (y # ys)))"

text \<open>
  \<^verbatim>\<open>torch.topk(x, k).indices\<close>: the indices of the \<open>k\<close> largest values, largest first.  Torch
  does not fix the order among equal values; the model lists the lower index first.
\<close>

definition topk :: "real list \<Rightarrow> nat \<Rightarrow> nat list" where
  "topk x k = take k (sort_key (\<lambda>i. - (x ! i)) [0..<length x])"

text \<open>
  The top-k token ids of one head, read at batch 0 and the last position
  (\<^verbatim>\<open>medusa_logits[i, 0, -1]\<close>): \<open>IndexError\<close> when there is no such position, \<open>RuntimeError\<close>
  when \<open>k\<close> is negative or exceeds the vocabulary.
\<close>

definition head_candidates :: "real list list list \<Rightarrow> int \<Rightarrow> error + nat list" where
  "head_candidates head k =
     (if head = [] \<or> hd head = [] then Inl IndexError
      else if k < 0 \<or> int (length (last (hd head))) < k then Inl RuntimeError
      else Inr (topk (last (hd head)) (nat k)))"

text \<open>
  \<^verbatim>\<open>torch.cartesian_prod\<close>: all combinations, the first tensor varying slowest; given a single
  tensor it returns that tensor, which has one dimension.
\<close>

datatype candidates_tensor = Vector "nat list" | Matrix "nat list list"

definition cartesian_prod :: "nat list list \<Rightarrow> candidates_tensor" where
  "cartesian_prod tensors =
     (case tensors of [t] \<Rightarrow> Vector t | _ \<Rightarrow> Matrix (product_lists tensors))"

text \<open>\<^verbatim>\<open>candidates_flat[tree_indices]\<close>: negative indices count from the end.\<close>

definition index_select :: "'a list \<Rightarrow> int list \<Rightarrow> error + 'a list" where
  "index_select xs idx =
     map_e (\<lambda>i. if - int (length xs) \<le> i \<and> i < int (length xs)
                 then Inr (xs ! nat (i mod int (length xs))) else Inl IndexError) idx"

text \<open>
  The candidate tokens of all heads.  When all entries of \<open>medusa_topk\<close> are equal the source
  takes the top-k of every head in one call with \<^verbatim>\<open>medusa_topk[0]\<close>; otherwise it loops over the
  heads and reads \<^verbatim>\<open>medusa_topk[i]\<close> (\<open>IndexError\<close> when the list is too short).
\<close>

definition medusa_candidates :: "real list list list list \<Rightarrow> int list \<Rightarrow> error + nat list list" where
  "medusa_candidates medusa_logits medusa_topk =
     (if length (remdups medusa_topk) = 1
      then map_e (\<lambda>head. head_candidates head (medusa_topk ! 0)) medusa_logits
      else map_e (\<lambda>i. if length medusa_topk \<le> i then Inl IndexError
                       else head_candidates (medusa_logits ! i) (medusa_topk ! i))
             [0..<length medusa_logits])"

definition generate_candidates ::
  "real list list list list \<Rightarrow> real list list list \<Rightarrow> int list \<Rightarrow> int list \<Rightarrow>
   error + (candidates_tensor \<times> nat list list)" where
  "generate_candidates medusa_logits logits medusa_topk tree_indices =
     (if \<exists>row\<in>set logits. row = [] then Inl IndexError
      else if concat (map last logits) = [] then Inl IndexError
      else
        and_then (medusa_candidates medusa_logits medusa_topk)
          (\<lambda>heads.
             and_then
               (index_select (concat ([argmax (concat (map last logits))] # heads)) tree_indices)
               (\<lambda>tree_candidates.
                  Inr (cartesian_prod ([argmax (concat (map last logits))] # heads),
                       [tree_candidates]))))"

section \<open>generate_medusa_buffers\<close>

text \<open>
  \<open>medusa_choices\<close> is a list of Python integers; the tensor made from it holds 64-bit
  integers, modelled as unbounded integers (the predicate \<open>fits_int64\<close> below says when the two
  agree).  The helpers give the torch operations the function uses, with the exceptions they
  raise.
\<close>

text \<open>\<^verbatim>\<open>torch.cumsum\<close> along one dimension.\<close>

fun cumsum_from :: "int \<Rightarrow> int list \<Rightarrow> int list" where
  "cumsum_from acc [] = []"
| "cumsum_from acc (x # xs) = (acc + x) # cumsum_from (acc + x) xs"

definition cumsum :: "int list \<Rightarrow> int list" where
  "cumsum xs = cumsum_from 0 xs"

text \<open>A \<^verbatim>\<open>for\<close> loop over a list of indices whose body may raise.\<close>

fun for_each :: "('a \<Rightarrow> 's \<Rightarrow> error + 's) \<Rightarrow> 'a list \<Rightarrow> 's \<Rightarrow> error + 's" where
  "for_each body [] s = Inr s"
| "for_each body (i # is) s = and_then (body i s) (for_each body is)"

text \<open>\<^verbatim>\<open>torch.arange(lo, hi)\<close>: an upper bound below the lower bound is refused.\<close>

definition arange :: "int \<Rightarrow> int \<Rightarrow> error + int list" where
  "arange lo hi = (if hi < lo then Inl RuntimeError else Inr [lo..hi - 1])"

text \<open>\<^verbatim>\<open>x.repeat(n, 1)\<close> for a one-dimensional \<open>x\<close>: \<open>n\<close> rows, each a copy of \<open>x\<close>.\<close>

definition repeat :: "int \<Rightarrow> 'a list \<Rightarrow> error + 'a list list" where
  "repeat n x = (if n < 0 then Inl RuntimeError else Inr (replicate (nat n) x))"

text \<open>\<^verbatim>\<open>x.repeat(n, 1)\<close> for a two-dimensional \<open>x\<close>: the rows of \<open>x\<close>, \<open>n\<close> times over.\<close>

definition tile :: "int \<Rightarrow> 'a list list \<Rightarrow> error + 'a list list" where
  "tile n x = (if n < 0 then Inl RuntimeError else Inr (concat (replicate (nat n) x)))"

text \<open>The bounds of a Python slice \<^verbatim>\<open>xs[lo:hi]\<close>: negative bounds count from the end.\<close>

definition slice_bound :: "nat \<Rightarrow> int \<Rightarrow> nat" where
  "slice_bound n k = (if k < 0 then nat (max 0 (k + int n)) else min n (nat k))"

definition py_slice :: "'a list \<Rightarrow> int \<Rightarrow> int \<Rightarrow> 'a list" where
  "py_slice xs lo hi =
     take (slice_bound (length xs) hi - slice_bound (length xs) lo)
       (drop (slice_bound (length xs) lo) xs)"

text \<open>\<^verbatim>\<open>torch.eye(n, n)\<close> and \<^verbatim>\<open>torch.zeros(n, m)\<close>.\<close>

definition eye :: "int \<Rightarrow> error + nat list list" where
  "eye n = (if n < 0 then Inl RuntimeError
            else Inr (map (\<lambda>i. map (\<lambda>j. if i = j then 1 else 0) [0..<nat n]) [0..<nat n]))"

definition zeros :: "int \<Rightarrow> nat \<Rightarrow> error + int list list" where
  "zeros n m = (if n < 0 then Inl RuntimeError else Inr (replicate (nat n) (replicate m 0)))"

text \<open>
  \<^verbatim>\<open>m[lo:hi] += rows\<close>: the right-hand side must have as many rows as the slice, or one row
  that is added to every row of the slice.
\<close>

definition add_rows :: "nat list list \<Rightarrow> int \<Rightarrow> int \<Rightarrow> nat list list \<Rightarrow> error + nat list list" where
  "add_rows m lo hi rows =
     (let start = slice_bound (length m) lo;
          stop = max start (slice_bound (length m) hi)
      in if length rows = stop - start
         then Inr (take start m @ map2 (map2 (+)) (take (stop - start) (drop start m)) rows
                   @ drop stop m)
         else if length rows = 1
         then Inr (take start m
                   @ map (\<lambda>r. map2 (+) r (hd rows)) (take (stop - start) (drop start m))
                   @ drop stop m)
         else Inl RuntimeError)"

text \<open>\<^verbatim>\<open>m[:, i] = col\<close>: one value per row, or a single value for all rows.\<close>

definition set_column :: "int list list \<Rightarrow> nat \<Rightarrow> int list \<Rightarrow> error + int list list" where
  "set_column m i col =
     (if length col = length m then Inr (map2 (\<lambda>row v. row[i := v]) m col)
      else if length col = 1 then Inr (map (\<lambda>row. row[i := hd col]) m)
      else Inl RuntimeError)"

text \<open>Part 1: the tree indices.  The loop state is \<open>(tree_indices, prev_cumsum, prev_cumprod)\<close>.\<close>

definition tree_indices_step ::
  "int list \<Rightarrow> int list \<Rightarrow> int list \<Rightarrow> nat \<Rightarrow> int list \<times> int \<times> int
   \<Rightarrow> error + (int list \<times> int \<times> int)" where
  "tree_indices_step cumulative_sum cumulative_product medusa_indices i st =
     (case st of (tree_indices, prev_cumsum, prev_cumprod) \<Rightarrow>
        and_then (repeat prev_cumprod (py_slice medusa_indices prev_cumsum (cumulative_sum ! i)))
          (\<lambda>slice. Inr (tree_indices @ concat slice, cumulative_sum ! i, cumulative_product ! i)))"

text \<open>
  Part 2: the attention mask.  The loop state is \<open>(medusa_attn_mask, prev_cumprod_sum)\<close>; every
  node of depth \<open>i\<close> receives the row of its parent, the parents being the nodes of depth
  \<open>i - 1\<close>, each repeated \<open>medusa_choices[i]\<close> times.
\<close>

definition attn_mask_step ::
  "int list \<Rightarrow> int list \<Rightarrow> nat \<Rightarrow> nat list list \<times> int \<Rightarrow> error + (nat list list \<times> int)" where
  "attn_mask_step medusa_choices cumulative_product i st =
     (case st of (medusa_attn_mask, prev_cumprod_sum) \<Rightarrow>
        if prev_cumprod_sum \<noteq> - 1 then
          and_then (arange prev_cumprod_sum (sum_list (take i cumulative_product)))
            (\<lambda>r. and_then (repeat (medusa_choices ! i) r)
              (\<lambda>rep. and_then (index_select medusa_attn_mask (concat (transpose rep)))
                (\<lambda>rows. and_then
                   (add_rows medusa_attn_mask (sum_list (take i cumulative_product))
                      (sum_list (take i cumulative_product) + int (length (concat (transpose rep))))
                      rows)
                   (\<lambda>mask. Inr (mask, sum_list (take i cumulative_product))))))
        else Inr (medusa_attn_mask, sum_list (take i cumulative_product)))"

text \<open>Part 4: the retrieve indices.  The loop state is \<open>(retrieve_indices, prev_cumprod_sum)\<close>.\<close>

definition retrieve_step ::
  "int list \<Rightarrow> int \<Rightarrow> nat \<Rightarrow> int list list \<times> int \<Rightarrow> error + (int list list \<times> int)" where
  "retrieve_step cumulative_product medusa_len_prod i st =
     (case st of (retrieve_indices, prev_cumprod_sum) \<Rightarrow>
        and_then (arange prev_cumprod_sum (sum_list (take (Suc i) cumulative_product)))
          (\<lambda>r. if sum_list (take (Suc i) cumulative_product) - prev_cumprod_sum = 0
                then Inl ZeroDivisionError
                else and_then
                  (repeat (medusa_len_prod
                            div (sum_list (take (Suc i) cumulative_product) - prev_cumprod_sum)) r)
                  (\<lambda>rep. and_then (set_column retrieve_indices i (concat (transpose rep)))
                    (\<lambda>ri. Inr (ri, sum_list (take (Suc i) cumulative_product))))))"

text \<open>
  Part 5: the list indices.  The loop state is \<open>(list_indices, prev_cumprod_sum)\<close>; every block
  is kept with its number of columns.  Here the divisions are divisions of tensors, which raise
  \<open>RuntimeError\<close> on a zero divisor.
\<close>

definition list_indices_step ::
  "int list \<Rightarrow> int list \<Rightarrow> int \<Rightarrow> nat \<Rightarrow> (int list list \<times> nat) list \<times> int
   \<Rightarrow> error + ((int list list \<times> nat) list \<times> int)" where
  "list_indices_step medusa_choices cumulative_product cumulative_product_max i st =
     (case st of (list_indices, prev_cumprod_sum) \<Rightarrow>
        and_then (arange prev_cumprod_sum (prev_cumprod_sum + medusa_choices ! i))
          (\<lambda>current_indices.
             if medusa_choices ! i = 0 then Inl RuntimeError
             else and_then (repeat (cumulative_product ! i div medusa_choices ! i) current_indices)
               (\<lambda>rep. and_then (arange 0 (cumulative_product ! i div medusa_choices ! i))
                 (\<lambda>offsets.
                    if cumulative_product ! i div medusa_choices ! i = 0 then Inl RuntimeError
                    else and_then
                      (tile (cumulative_product_max
                              div (cumulative_product ! i div medusa_choices ! i))
                         (map2 (\<lambda>row off. map (\<lambda>v. v + off * int (length current_indices)) row)
                            rep offsets))
                      (\<lambda>block. Inr (list_indices @ [(block, length current_indices)],
                                     prev_cumprod_sum + cumulative_product ! i))))))"

text \<open>
  \<^verbatim>\<open>torch.cat(list_indices, dim=1).transpose(0, 1)\<close>: the blocks must have the same number of
  rows; the result lists the columns of all blocks.
\<close>

definition cat_columns :: "(int list list \<times> nat) list \<Rightarrow> error + int list list" where
  "cat_columns blocks =
     (if \<exists>blk\<in>set blocks. length (fst blk) \<noteq> length (fst (hd blocks)) then Inl RuntimeError
      else Inr (concat (map (\<lambda>blk. map (\<lambda>j. map (\<lambda>row. row ! j) (fst blk)) [0..<snd blk]) blocks)))"

record medusa_buffers =
  buf_medusa_attn_mask :: "nat list list"
  buf_tree_indices :: "int list"
  buf_medusa_position_ids :: "nat list"
  buf_retrieve_indices :: "int list list"
  buf_list_indices :: "int list list"

text \<open>
  The function.  Of an empty \<open>medusa_choices\<close> torch makes a tensor of floats, whose sum
  \<^verbatim>\<open>torch.eye\<close> refuses with a \<open>TypeError\<close>.  The fields of the result carry the keys of the
  returned dictionary after the prefix \<open>buf_\<close>; the returned mask has two more leading
  dimensions of size one.
\<close>

definition generate_medusa_buffers :: "int list \<Rightarrow> error + medusa_buffers" where
  "generate_medusa_buffers medusa_choices =
     (if medusa_choices = [] then Inl TypeError
      else
        and_then (eye (sum_list (cumprod medusa_choices)))
        (\<lambda>mask0. and_then (arange 0 (last (cumsum medusa_choices)))
        (\<lambda>medusa_indices. and_then
           (for_each (tree_indices_step (cumsum medusa_choices) (cumprod medusa_choices) medusa_indices)
              [0..<length medusa_choices] ([], 0, 1))
        (\<lambda>part1. and_then
           (for_each (attn_mask_step medusa_choices (cumprod medusa_choices))
              [0..<length medusa_choices] (mask0, - 1))
        (\<lambda>part2. and_then (zeros (prod_list medusa_choices) (length medusa_choices))
        (\<lambda>zeros0. and_then
           (for_each (retrieve_step (cumprod medusa_choices) (prod_list medusa_choices))
              [0..<length medusa_choices] (zeros0, 0))
        (\<lambda>part4. and_then
           (for_each (list_indices_step medusa_choices (cumprod medusa_choices)
                        (Max (set (cumprod medusa_choices))))
              [0..<length medusa_choices] ([], 0))
        (\<lambda>part5. and_then (cat_columns (fst part5))
        (\<lambda>cols. Inr \<lparr> buf_medusa_attn_mask = fst part2, buf_tree_indices = fst part1,
                       buf_medusa_position_ids =
                         concat (map (\<lambda>i. replicate (nat (cumprod medusa_choices ! i)) i)
                                   [0..<length medusa_choices]),
                       buf_retrieve_indices = fst part4, buf_list_indices = cols \<rparr>)))))))))"

text \<open>
  The integers of the tensors have 64 bits.  When the absolute values of the entries and of the
  cumulative products sum to less than \<open>2^63\<close>, no operation of the function wraps around.
\<close>

definition fits_int64 :: "int list \<Rightarrow> bool" where
  "fits_int64 medusa_choices \<longleftrightarrow>
     sum_list (map abs medusa_choices) < 2 ^ 63
     \<and> sum_list (map abs (cumprod medusa_choices)) < 2 ^ 63"

text \<open>
  The tree behind the buffers, as the mask loop lays it out: the nodes of depth \<open>d\<close> are the
  \<open>cumulative_product[d]\<close> consecutive numbers from \<open>level_start b d\<close> on, and the loop gives the
  \<open>j\<close>-th node of depth \<open>d\<close> the \<open>(j div b[d])\<close>-th node of depth \<open>d - 1\<close> as its parent.
  \<open>ancestor b d r k\<close> is the node reached from a node \<open>r\<close> of depth \<open>d\<close> by \<open>k\<close> steps to the
  parent, and \<open>chain_row\<close> is the mask row with ones at \<open>r\<close> and its ancestors, summed up the way
  the loop does.
\<close>

definition level_start :: "int list \<Rightarrow> nat \<Rightarrow> nat" where
  "level_start b d = nat (sum_list (take d (cumprod b)))"

definition parent :: "int list \<Rightarrow> nat \<Rightarrow> nat \<Rightarrow> nat" where
  "parent b d r = level_start b (d - 1) + (r - level_start b d) div nat (b ! d)"

fun ancestor :: "int list \<Rightarrow> nat \<Rightarrow> nat \<Rightarrow> nat \<Rightarrow> nat" where
  "ancestor b d r 0 = r"
| "ancestor b d r (Suc k) = parent b (d - k) (ancestor b d r k)"

definition eye_row :: "nat \<Rightarrow> nat \<Rightarrow> nat list" where
  "eye_row n r = map (\<lambda>j. if r = j then 1 else 0) [0..<n]"

fun chain_row :: "int list \<Rightarrow> nat \<Rightarrow> nat \<Rightarrow> nat \<Rightarrow> nat list" where
  "chain_row b n 0 r = eye_row n r"
| "chain_row b n (Suc d) r = map2 (+) (eye_row n r) (chain_row b n d (parent b (Suc d) r))"

section \<open>Facts about the primitives\<close>

lemma argmax_less: "xs \<noteq> [] \<Longrightarrow> argmax xs < length xs"
proof (induction xs)
  case Nil
  then show ?case by simp
next
  case (Cons x xs)
  show ?case
  proof (cases "\<forall>y\<in>set xs. y \<le> x")
    case True
    then show ?thesis by simp
  next
    case False
    then have "xs \<noteq> []" by auto
    then show ?thesis using False Cons.IH by simp
  qed
qed

lemma argmax_greatest: "i < length xs \<Longrightarrow> xs ! i \<le> xs ! argmax xs"
proof (induction xs arbitrary: i)
  case Nil
  then show ?case by simp
next
  case (Cons x xs)
  show ?case
  proof (cases "\<forall>y\<in>set xs. y \<le> x")
    case True
    then show ?thesis using Cons.prems by (cases i) auto
  next
    case False
    then obtain y where y: "y \<in> set xs" "x < y" by auto
    then obtain k where k: "k < length xs" "xs ! k = y" by (auto simp: in_set_conv_nth)
    have "y \<le> xs ! argmax xs" using Cons.IH [OF k(1)] k(2) by simp
    then have "x \<le> xs ! argmax xs" using y(2) by simp
    then show ?thesis using False Cons.IH Cons.prems by (cases i) auto
  qed
qed

lemma argmax_first: "i < argmax xs \<Longrightarrow> xs ! i < xs ! argmax xs"
proof (induction xs arbitrary: i)
  case Nil
  then show ?case by simp
next
  case (Cons x xs)
  show ?case
  proof (cases "\<forall>y\<in>set xs. y \<le> x")
    case True
    then show ?thesis using Cons.prems by simp
  next
    case False
    then obtain y where y: "y \<in> set xs" "x < y" by auto
    then obtain k where k: "k < length xs" "xs ! k = y" by (auto simp: in_set_conv_nth)
    have "y \<le> xs ! argmax xs" using argmax_greatest [OF k(1)] k(2) by simp
    then have x: "x < xs ! argmax xs" using y(2) by simp
    have am: "argmax (x # xs) = Suc (argmax xs)" using False by simp
    show ?thesis
    proof (cases i)
      case 0
      then show ?thesis using x am by simp
    next
      case (Suc j)
      then have "j < argmax xs" using Cons.prems am by simp
      then show ?thesis using Cons.IH Suc am by simp
    qed
  qed
qed

lemma max_from_Max: "max_from m xs = Max (set (m # xs))"
proof (induction xs arbitrary: m)
  case Nil
  then show ?case by simp
next
  case (Cons x xs)
  have "Max (insert (max m x) (set xs)) = Max (insert m (insert x (set xs)))"
    by (cases "set xs = {}") (simp_all add: max.assoc)
  then show ?case using Cons.IH [of "max m x"] by simp
qed

lemma cumprod_from_zero: "cumprod_from (0::nat) m = replicate (length m) 0"
  by (induction m) auto

lemma sum_cumprod_from_one:
  "set m \<subseteq> {0, 1} \<Longrightarrow> sum_list (cumprod_from (1::nat) m) = length (takeWhile (\<lambda>x. x = 1) m)"
proof (induction m)
  case Nil
  then show ?case by simp
next
  case (Cons x m)
  then have "x = 0 \<or> x = 1" by auto
  then show ?case using Cons by (auto simp: cumprod_from_zero)
qed

lemma longest_prefix_unique:
  "longest_prefix acc D n \<Longrightarrow> longest_prefix acc D n' \<Longrightarrow> n = n'"
proof (rule ccontr)
  assume a: "longest_prefix acc D n" and b: "longest_prefix acc D n'" and ne: "n \<noteq> n'"
  show False
  proof (cases "n < n'")
    case True
    then have "n < D" "acc n" using b by (auto simp: longest_prefix_def)
    then show False using a by (auto simp: longest_prefix_def)
  next
    case False
    then have "n' < n" using ne by simp
    then have "n' < D" "acc n'" using a by (auto simp: longest_prefix_def)
    then show False using b by (auto simp: longest_prefix_def)
  qed
qed

lemma takeWhile_prefix_spec:
  assumes "length m = D" and "\<forall>i<D. m ! i = (if acc i then 1 else (0::nat))"
  shows "longest_prefix acc D (length (takeWhile (\<lambda>x. x = 1) m))"
proof -
  let ?n = "length (takeWhile (\<lambda>x. x = 1) m)"
  have le: "?n \<le> D" using assms(1) length_takeWhile_le [of "\<lambda>x. x = 1" m] by simp
  have all: "\<forall>i<?n. acc i"
  proof (intro allI impI)
    fix i assume i: "i < ?n"
    have "takeWhile (\<lambda>x. x = 1) m ! i \<in> set (takeWhile (\<lambda>x. x = 1) m)"
      using i by (rule nth_mem)
    then have "takeWhile (\<lambda>x. x = 1) m ! i = 1"
      using set_takeWhileD [of "takeWhile (\<lambda>x. x = 1) m ! i" "\<lambda>x. x = 1" m] by blast
    then have one: "m ! i = 1" using takeWhile_nth [OF i] by simp
    have "i < D" using i le by simp
    with assms(2) have e: "m ! i = (if acc i then 1 else 0)" by blast
    show "acc i" using e one by (cases "acc i") simp_all
  qed
  have stop: "?n < D \<longrightarrow> \<not> acc ?n"
  proof
    assume lt: "?n < D"
    then have "?n < length m" using assms(1) by simp
    then have ne: "m ! ?n \<noteq> 1" by (rule nth_length_takeWhile)
    from assms(2) lt have e: "m ! ?n = (if acc ?n then 1 else 0)" by blast
    show "\<not> acc ?n" using e ne by (cases "acc ?n") simp_all
  qed
  show ?thesis unfolding longest_prefix_def using le all stop by blast
qed

lemma accept_length_row:
  assumes "length m = D" and "\<forall>i<D. m ! i = (if acc i then 1 else (0::nat))"
  shows "longest_prefix acc D (sum_list (cumprod m))"
proof -
  have "set m \<subseteq> {0, 1}"
  proof
    fix x assume "x \<in> set m"
    then obtain i where i: "i < length m" "m ! i = x" by (auto simp: in_set_conv_nth)
    then have "i < D" using assms(1) by simp
    with assms(2) have "m ! i = (if acc i then 1 else 0)" by blast
    then show "x \<in> {0, 1}" using i(2) by (cases "acc i") auto
  qed
  then have "sum_list (cumprod m) = length (takeWhile (\<lambda>x. x = 1) m)"
    unfolding cumprod_def by (rule sum_cumprod_from_one)
  then show ?thesis using takeWhile_prefix_spec [OF assms] by simp
qed

lemma accept_lengths_spec:
  assumes "length pm = P"
    and "\<forall>p<P. length (pm ! p) = D \<and> (\<forall>i<D. pm ! p ! i = (if acc p i then 1 else 0))"
  shows "length (accept_lengths pm) = P"
    and "\<forall>p<P. longest_prefix (acc p) D (accept_lengths pm ! p)"
  using assms accept_length_row [of "pm ! p" D "acc p" for p]
  by (auto simp: accept_lengths_def)

lemma max_from_mem: "max_from c cs \<in> set (c # cs)"
  unfolding max_from_Max by (rule Max_in) auto

lemma max_from_ge: "x \<in> set (c # cs) \<Longrightarrow> x \<le> max_from c cs"
  unfolding max_from_Max by (rule Max_ge) auto

lemma greedy_mask_rows:
  assumes "shape3 P (Suc D) V logits" and "shape2 P (Suc D) candidates"
  shows "length (greedy_mask logits candidates) = P"
    and "\<forall>p<P. length (greedy_mask logits candidates ! p) = D \<and>
          (\<forall>i<D. greedy_mask logits candidates ! p ! i =
             (if greedy_match logits candidates p i then 1 else 0))"
  using assms
  by (auto simp: greedy_mask_def shape3_def shape2_def greedy_match_def nth_tl nth_butlast)

lemma no_empty_rows:
  assumes "shape3 P (Suc D) V logits" and "0 < V"
  shows "\<not> (\<exists>ls\<in>set logits. \<exists>l\<in>set (butlast ls). l = [])"
proof
  assume "\<exists>ls\<in>set logits. \<exists>l\<in>set (butlast ls). l = []"
  then obtain ls l where ls: "ls \<in> set logits" and l: "l \<in> set (butlast ls)" "l = []" by blast
  from l(1) have "l \<in> set ls" by (rule in_set_butlastD)
  then have "length l = V" using assms(1) ls by (auto simp: shape3_def shape2_def)
  then show False using l(2) assms(2) by simp
qed

lemma greedy_lengths:
  assumes "shape3 P (Suc D) V logits" and "shape2 P (Suc D) candidates"
  shows "length (accept_lengths (greedy_mask logits candidates)) = P"
    and "\<forall>p<P. longest_prefix (greedy_match logits candidates p) D
           (accept_lengths (greedy_mask logits candidates) ! p)"
  using accept_lengths_spec [OF greedy_mask_rows [OF assms]] by blast+

lemma evaluate_posterior_greedy:
  assumes "shape3 P (Suc D) V logits" and "0 < V"
    and "accept_lengths (greedy_mask logits candidates) = c # cs"
  shows "evaluate_posterior logits candidates 0 pt pa =
           Inr (if max_from c cs = 0 then 0 else argmax (c # cs), max_from c cs)"
  using no_empty_rows [OF assms(1,2)] assms(3)
  by (simp add: evaluate_posterior_def Let_def)

lemma nonempty_cons: "length xs = P \<Longrightarrow> 0 < P \<Longrightarrow> \<exists>c cs. xs = c # cs"
  by (cases xs) auto

section \<open>Greedy acceptance (temperature 0)\<close>

text \<open>
  Claim C1.  With temperature 0, on a candidates matrix of \<open>P\<close> paths and \<open>D + 1\<close> positions and
  per-path logits of the same shape over a non-empty vocabulary, \<open>evaluate_posterior\<close> returns,
  and its accept length is the maximum over the paths of the length of the longest prefix of
  positions \<open>i\<close> with \<open>candidates[p][i+1] = argmax logits[p][i]\<close>: some path has exactly this
  longest matching prefix, and no path has a longer one.  A prefix ends at the first mismatch.
\<close>

theorem greedy_accept_length_is_max_prefix:
  assumes "shape3 P (Suc D) V logits" and "shape2 P (Suc D) candidates"
    and "0 < P" and "0 < V"
  shows "\<exists>best al. evaluate_posterior logits candidates 0 pt pa = Inr (best, al) \<and>
           (\<exists>p<P. longest_prefix (greedy_match logits candidates p) D al) \<and>
           (\<forall>p<P. \<forall>n. longest_prefix (greedy_match logits candidates p) D n \<longrightarrow> n \<le> al)"
proof -
  let ?cal = "accept_lengths (greedy_mask logits candidates)"
  note gl = greedy_lengths [OF assms(1,2)]
  obtain c cs where cal: "?cal = c # cs" using nonempty_cons [OF gl(1) assms(3)] by blast
  let ?al = "max_from c cs"
  have ev: "evaluate_posterior logits candidates 0 pt pa =
              Inr (if ?al = 0 then 0 else argmax (c # cs), ?al)"
    by (rule evaluate_posterior_greedy [OF assms(1) assms(4) cal])
  have "?al \<in> set ?cal" unfolding cal by (rule max_from_mem)
  then obtain p where p: "p < P" "?cal ! p = ?al" using gl(1) by (auto simp: in_set_conv_nth)
  have attained: "\<exists>p<P. longest_prefix (greedy_match logits candidates p) D ?al"
    using gl(2) p by metis
  have bound: "\<forall>p<P. \<forall>n. longest_prefix (greedy_match logits candidates p) D n \<longrightarrow> n \<le> ?al"
  proof (intro allI impI)
    fix q n assume q: "q < P" and n: "longest_prefix (greedy_match logits candidates q) D n"
    have "longest_prefix (greedy_match logits candidates q) D (?cal ! q)" using gl(2) q by blast
    then have "n = ?cal ! q" using n by (rule longest_prefix_unique [rotated])
    moreover have "?cal ! q \<in> set (c # cs)" using q gl(1) cal by (metis nth_mem)
    ultimately show "n \<le> ?al" using max_from_ge by blast
  qed
  show ?thesis using ev attained bound by blast
qed

theorem greedy_accept_length_is_max_prefix_witness:
  "shape3 2 (Suc 1) 2 [[[0, 1], [1, 0]], [[1, 0], [0, 1 :: real]]] \<and>
   shape2 2 (Suc 1) [[0, 1], [0, 1 :: nat]] \<and>
   (\<exists>best al. evaluate_posterior [[[0, 1], [1, 0]], [[1, 0], [0, 1]]] [[0, 1], [0, 1]] 0 (9 / 100) (3 / 10)
        = Inr (best, al) \<and>
      (\<exists>p<2. longest_prefix
          (greedy_match [[[0, 1], [1, 0]], [[1, 0], [0, 1]]] [[0, 1], [0, 1]] p) 1 al))"
proof -
  have h1: "shape3 2 (Suc 1) 2 [[[0, 1], [1, 0]], [[1, 0], [0, 1 :: real]]]"
    by (simp add: shape3_def shape2_def)
  have h2: "shape2 2 (Suc 1) [[0, 1], [0, 1 :: nat]]"
    by (simp add: shape2_def)
  have h3: "0 < (2::nat)" by simp
  from greedy_accept_length_is_max_prefix [OF h1 h2 h3 h3, of "9 / 100" "3 / 10"]
  show ?thesis using h1 h2 by blast
qed

text \<open>
  Claim C2.  With temperature 0 the best candidate is the lowest path id among the paths whose
  longest matching prefix has the maximal length; when that maximum is 0 the result is
  path 0 with accept length 0.
\<close>

theorem greedy_best_candidate_is_lowest:
  assumes "shape3 P (Suc D) V logits" and "shape2 P (Suc D) candidates"
    and "0 < P" and "0 < V"
  shows "\<exists>best al. evaluate_posterior logits candidates 0 pt pa = Inr (best, al) \<and>
           best < P \<and> longest_prefix (greedy_match logits candidates best) D al \<and>
           (\<forall>p<P. \<forall>n. longest_prefix (greedy_match logits candidates p) D n \<longrightarrow> n \<le> al) \<and>
           (\<forall>p<best. \<not> longest_prefix (greedy_match logits candidates p) D al) \<and>
           (al = 0 \<longrightarrow> best = 0)"
proof -
  let ?cal = "accept_lengths (greedy_mask logits candidates)"
  let ?lp = "\<lambda>p. longest_prefix (greedy_match logits candidates p) D"
  note gl = greedy_lengths [OF assms(1,2)]
  obtain c cs where cal: "?cal = c # cs" using nonempty_cons [OF gl(1) assms(3)] by blast
  let ?al = "max_from c cs"
  let ?best = "if ?al = 0 then 0 else argmax (c # cs)"
  have ev: "evaluate_posterior logits candidates 0 pt pa = Inr (?best, ?al)"
    by (rule evaluate_posterior_greedy [OF assms(1) assms(4) cal])
  have len: "length (c # cs) = P" using gl(1) cal by simp
  have ge: "\<And>q. q < P \<Longrightarrow> ?cal ! q \<le> ?al"
  proof -
    fix q assume "q < P"
    then have "?cal ! q \<in> set (c # cs)" using gl(1) cal by (metis nth_mem)
    then show "?cal ! q \<le> ?al" by (rule max_from_ge)
  qed
  have "?al \<in> set (c # cs)" by (rule max_from_mem)
  then obtain k where "k < length (c # cs)" "(c # cs) ! k = ?al"
    unfolding in_set_conv_nth by blast
  then have k: "k < P" "(c # cs) ! k = ?al" using len by simp_all
  have am_lt: "argmax (c # cs) < P" using argmax_less [of "c # cs"] len by simp
  have am_val: "(c # cs) ! argmax (c # cs) = ?al"
  proof -
    have "(c # cs) ! k \<le> (c # cs) ! argmax (c # cs)" using argmax_greatest k(1) len by blast
    moreover have "(c # cs) ! argmax (c # cs) \<le> ?al" using ge [OF am_lt] cal by simp
    ultimately show ?thesis using k(2) by simp
  qed
  have best_lt: "?best < P" using am_lt assms(3) by simp
  have best_val: "?cal ! ?best = ?al"
  proof (cases "?al = 0")
    case True
    then have "?cal ! 0 = 0" using ge [OF assms(3)] by simp
    then show ?thesis using True by simp
  next
    case False
    then show ?thesis using am_val cal by simp
  qed
  have attained: "?lp ?best ?al" using gl(2) best_lt best_val by metis
  have bound: "\<forall>p<P. \<forall>n. ?lp p n \<longrightarrow> n \<le> ?al"
  proof (intro allI impI)
    fix q n assume q: "q < P" and n: "?lp q n"
    have "?lp q (?cal ! q)" using gl(2) q by blast
    then have "n = ?cal ! q" using n by (rule longest_prefix_unique [rotated])
    then show "n \<le> ?al" using ge [OF q] by simp
  qed
  have lowest: "\<forall>p<?best. \<not> ?lp p ?al"
  proof (intro allI impI)
    fix q assume q: "q < ?best"
    then have nz: "?al \<noteq> 0" by (cases "?al = 0") simp_all
    then have qa: "q < argmax (c # cs)" using q by simp
    then have "(c # cs) ! q < (c # cs) ! argmax (c # cs)" by (rule argmax_first)
    then have lt: "?cal ! q < ?al" using am_val cal by simp
    have qP: "q < P" using qa am_lt by simp
    show "\<not> ?lp q ?al"
    proof
      assume a: "?lp q ?al"
      have "?lp q (?cal ! q)" using gl(2) qP by blast
      then have "?al = ?cal ! q" using a by (rule longest_prefix_unique [rotated])
      then show False using lt by simp
    qed
  qed
  have zero: "?al = 0 \<longrightarrow> ?best = 0" by simp
  show ?thesis
    by (rule exI [of _ ?best], rule exI [of _ ?al])
      (intro conjI ev best_lt attained bound lowest zero)
qed

theorem greedy_best_candidate_is_lowest_witness:
  "shape3 2 (Suc 1) 2 [[[0, 1], [1, 0]], [[0, 1], [0, 1 :: real]]] \<and>
   shape2 2 (Suc 1) [[0, 1], [0, 1 :: nat]] \<and>
   (\<exists>best al. evaluate_posterior [[[0, 1], [1, 0]], [[0, 1], [0, 1]]] [[0, 1], [0, 1]] 0 (9 / 100) (3 / 10)
        = Inr (best, al) \<and> best < 2 \<and>
      longest_prefix (greedy_match [[[0, 1], [1, 0]], [[0, 1], [0, 1]]] [[0, 1], [0, 1]] best) 1 al)"
proof -
  have h1: "shape3 2 (Suc 1) 2 [[[0, 1], [1, 0]], [[0, 1], [0, 1 :: real]]]"
    by (simp add: shape3_def shape2_def)
  have h2: "shape2 2 (Suc 1) [[0, 1], [0, 1 :: nat]]"
    by (simp add: shape2_def)
  have h3: "0 < (2::nat)" by simp
  from greedy_best_candidate_is_lowest [OF h1 h2 h3 h3, of "9 / 100" "3 / 10"]
  show ?thesis using h1 h2 by blast
qed

lemma shape3_row:
  assumes "shape3 P D V t" and "p < P"
  shows "length (t ! p) = D" and "\<And>i. i < D \<Longrightarrow> length (t ! p ! i) = V"
proof -
  have "t ! p \<in> set t" using assms by (simp add: shape3_def)
  then have s: "shape2 D V (t ! p)" using assms(1) by (simp add: shape3_def)
  show "length (t ! p) = D" using s by (simp add: shape2_def)
  fix i assume "i < D"
  then have "t ! p ! i \<in> set (t ! p)" using s by (simp add: shape2_def)
  then show "length (t ! p ! i) = V" using s by (simp add: shape2_def)
qed

lemma shape2_row:
  assumes "shape2 P D t" and "p < P"
  shows "length (t ! p) = D"
proof -
  have "t ! p \<in> set t" using assms by (simp add: shape2_def)
  then show ?thesis using assms(1) by (simp add: shape2_def)
qed

lemma posterior_prob_nth:
  assumes "shape3 P (Suc D) V logits" and "p < P"
  shows "length (posterior_prob logits T ! p) = D"
    and "\<And>i. i < D \<Longrightarrow> posterior_prob logits T ! p ! i = softmax (map (\<lambda>x. x / T) (logits ! p ! i))"
proof -
  have lp: "length logits = P" using assms(1) by (simp add: shape3_def)
  have lr: "length (logits ! p) = Suc D" by (rule shape3_row(1) [OF assms])
  have e: "posterior_prob logits T ! p =
             map (\<lambda>l. softmax (map (\<lambda>x. x / T) l)) (butlast (logits ! p))"
    using lp assms(2) by (simp add: posterior_prob_def)
  show "length (posterior_prob logits T ! p) = D" using e lr by simp
  fix i assume i: "i < D"
  then have "i < length (butlast (logits ! p))" using lr by simp
  then show "posterior_prob logits T ! p ! i = softmax (map (\<lambda>x. x / T) (logits ! p ! i))"
    using e by (simp add: nth_butlast)
qed

lemma posterior_prob_length: "length (posterior_prob logits T) = length logits"
  by (simp add: posterior_prob_def)

lemma softmax_length: "length (softmax xs) = length xs"
  by (simp add: softmax_def)

lemma in_set_nth: "i < length xs \<Longrightarrow> xs ! i \<in> set xs"
  by simp

lemma gather_ok_shapes:
  assumes "shape3 P (Suc D) V logits" and "shape2 P (Suc D) candidates"
    and "tokens_in_range V candidates"
  shows "gather_ok (posterior_prob logits T) candidates"
proof -
  have lc: "length candidates = P" using assms(2) by (simp add: shape2_def)
  have lp: "length logits = P" using assms(1) by (simp add: shape3_def)
  have rows: "\<And>p. p < P \<Longrightarrow>
     list_all2 (\<lambda>c pr. c < length pr) (tl (candidates ! p)) (posterior_prob logits T ! p)"
  proof -
    fix p assume p: "p < P"
    have lcp: "length (candidates ! p) = Suc D" by (rule shape2_row [OF assms(2) p])
    have lpp: "length (posterior_prob logits T ! p) = D" by (rule posterior_prob_nth(1) [OF assms(1) p])
    have cs: "candidates ! p \<in> set candidates" using lc p by simp
    show "list_all2 (\<lambda>c pr. c < length pr) (tl (candidates ! p)) (posterior_prob logits T ! p)"
    proof (rule list_all2_all_nthI)
      show "length (tl (candidates ! p)) = length (posterior_prob logits T ! p)"
        using lcp lpp by simp
    next
      fix i assume "i < length (tl (candidates ! p))"
      then have i: "i < D" using lcp by simp
      have "tl (candidates ! p) ! i = candidates ! p ! Suc i" using i lcp by (simp add: nth_tl)
      moreover have "candidates ! p ! Suc i \<in> set (candidates ! p)" using i lcp by simp
      then have "candidates ! p ! Suc i < V" using assms(3) cs by (simp add: tokens_in_range_def)
      moreover have "length (posterior_prob logits T ! p ! i) = V"
        using posterior_prob_nth(2) [OF assms(1) p i] shape3_row(2) [OF assms(1) p, of i] i
        by (simp add: softmax_length)
      ultimately show "tl (candidates ! p) ! i < length (posterior_prob logits T ! p ! i)" by simp
    qed
  qed
  show ?thesis unfolding gather_ok_def
  proof (rule list_all2_all_nthI)
    show "length candidates = length (posterior_prob logits T)"
      using lc lp by (simp add: posterior_prob_length)
  next
    fix p assume "p < length candidates"
    then show "list_all2 (\<lambda>c pr. c < length pr) (tl (candidates ! p)) (posterior_prob logits T ! p)"
      using rows lc by simp
  qed
qed

lemma candidates_prob_nth:
  assumes "shape3 P (Suc D) V logits" and "shape2 P (Suc D) candidates" and "p < P"
  shows "length (candidates_prob (posterior_prob logits T) candidates ! p) = D"
    and "\<And>i. i < D \<Longrightarrow> candidates_prob (posterior_prob logits T) candidates ! p ! i =
           softmax (map (\<lambda>x. x / T) (logits ! p ! i)) ! (candidates ! p ! Suc i)"
proof -
  have lc: "length candidates = P" using assms(2) by (simp add: shape2_def)
  have lp: "length logits = P" using assms(1) by (simp add: shape3_def)
  have lcp: "length (candidates ! p) = Suc D" by (rule shape2_row [OF assms(2,3)])
  have lpp: "length (posterior_prob logits T ! p) = D" by (rule posterior_prob_nth(1) [OF assms(1,3)])
  have e: "candidates_prob (posterior_prob logits T) candidates ! p =
             map2 (\<lambda>c pr. pr ! c) (tl (candidates ! p)) (posterior_prob logits T ! p)"
    using lc lp assms(3) by (simp add: candidates_prob_def posterior_prob_length)
  show "length (candidates_prob (posterior_prob logits T) candidates ! p) = D"
    using e lcp lpp by simp
  fix i assume i: "i < D"
  show "candidates_prob (posterior_prob logits T) candidates ! p ! i =
           softmax (map (\<lambda>x. x / T) (logits ! p ! i)) ! (candidates ! p ! Suc i)"
    using e i lcp lpp posterior_prob_nth(2) [OF assms(1,3) i] by (simp add: nth_tl)
qed

lemma candidates_prob_length:
  "length (candidates_prob prob candidates) = min (length candidates) (length prob)"
  by (simp add: candidates_prob_def)

lemma threshold_nth:
  assumes "shape3 P (Suc D) V logits" and "p < P"
  shows "length (threshold (posterior_prob logits T) pt pa ! p) = D"
    and "\<And>i. i < D \<Longrightarrow> threshold (posterior_prob logits T) pt pa ! p ! i =
           min pt (exp (- entropy (softmax (map (\<lambda>x. x / T) (logits ! p ! i)))) * pa)"
proof -
  have lp: "length logits = P" using assms(1) by (simp add: shape3_def)
  have lpp: "length (posterior_prob logits T ! p) = D" by (rule posterior_prob_nth(1) [OF assms])
  have e: "threshold (posterior_prob logits T) pt pa ! p =
             map (\<lambda>pr. min pt (exp (- entropy pr) * pa)) (posterior_prob logits T ! p)"
    using lp assms(2) by (simp add: threshold_def posterior_entropy_def posterior_prob_length)
  show "length (threshold (posterior_prob logits T) pt pa ! p) = D" using e lpp by simp
  fix i assume i: "i < D"
  show "threshold (posterior_prob logits T) pt pa ! p ! i =
           min pt (exp (- entropy (softmax (map (\<lambda>x. x / T) (logits ! p ! i)))) * pa)"
    using e i lpp posterior_prob_nth(2) [OF assms i] by simp
qed

lemma threshold_length: "length (threshold prob pt pa) = length prob"
  by (simp add: threshold_def posterior_entropy_def)

lemma typical_mask_rows:
  assumes "shape3 P (Suc D) V logits" and "shape2 P (Suc D) candidates"
  shows "length (typical_mask (candidates_prob (posterior_prob logits T) candidates)
                   (threshold (posterior_prob logits T) pt pa)) = P"
    and "\<forall>p<P. length (typical_mask (candidates_prob (posterior_prob logits T) candidates)
                   (threshold (posterior_prob logits T) pt pa) ! p) = D \<and>
          (\<forall>i<D. typical_mask (candidates_prob (posterior_prob logits T) candidates)
                   (threshold (posterior_prob logits T) pt pa) ! p ! i =
             (if typical_accept logits candidates T pt pa p i then 1 else 0))"
proof -
  let ?cp = "candidates_prob (posterior_prob logits T) candidates"
  let ?th = "threshold (posterior_prob logits T) pt pa"
  have lc: "length candidates = P" using assms(2) by (simp add: shape2_def)
  have lp: "length logits = P" using assms(1) by (simp add: shape3_def)
  have lcp: "length ?cp = P" using lc lp by (simp add: candidates_prob_length posterior_prob_length)
  have lth: "length ?th = P" using lp by (simp add: threshold_length posterior_prob_length)
  show "length (typical_mask ?cp ?th) = P" using lcp lth by (simp add: typical_mask_def)
  show "\<forall>p<P. length (typical_mask ?cp ?th ! p) = D \<and>
          (\<forall>i<D. typical_mask ?cp ?th ! p ! i =
             (if typical_accept logits candidates T pt pa p i then 1 else 0))"
  proof (intro allI impI conjI)
    fix p assume p: "p < P"
    have e: "typical_mask ?cp ?th ! p = map2 (\<lambda>c t. if c > t then 1 else 0) (?cp ! p) (?th ! p)"
      using p lcp lth by (simp add: typical_mask_def)
    have l1: "length (?cp ! p) = D" by (rule candidates_prob_nth(1) [OF assms p])
    have l2: "length (?th ! p) = D" by (rule threshold_nth(1) [OF assms(1) p])
    show "length (typical_mask ?cp ?th ! p) = D" using e l1 l2 by simp
    fix i assume i: "i < D"
    show "typical_mask ?cp ?th ! p ! i = (if typical_accept logits candidates T pt pa p i then 1 else 0)"
      using e i l1 l2 candidates_prob_nth(2) [OF assms p i] threshold_nth(2) [OF assms(1) p i]
      by (simp add: typical_accept_def)
  qed
qed

lemma typical_lengths:
  assumes "shape3 P (Suc D) V logits" and "shape2 P (Suc D) candidates"
  shows "length (accept_lengths (typical_mask (candidates_prob (posterior_prob logits T) candidates)
                   (threshold (posterior_prob logits T) pt pa))) = P"
    and "\<forall>p<P. longest_prefix (typical_accept logits candidates T pt pa p) D
           (accept_lengths (typical_mask (candidates_prob (posterior_prob logits T) candidates)
                   (threshold (posterior_prob logits T) pt pa)) ! p)"
  using accept_lengths_spec [OF typical_mask_rows [OF assms]] by blast+

lemma evaluate_posterior_typical:
  assumes "shape3 P (Suc D) V logits" and "shape2 P (Suc D) candidates"
    and "0 < V" and "tokens_in_range V candidates" and "T \<noteq> 0"
    and "accept_lengths (typical_mask (candidates_prob (posterior_prob logits T) candidates)
                   (threshold (posterior_prob logits T) pt pa)) = c # cs"
  shows "evaluate_posterior logits candidates T pt pa =
           Inr (if max_from c cs = 0 then 0
                else filter (\<lambda>p. (c # cs) ! p = max_from c cs) [0..<length (c # cs)]
                       ! argmax (likelihood (candidates_prob (posterior_prob logits T) candidates)
                           (filter (\<lambda>p. (c # cs) ! p = max_from c cs) [0..<length (c # cs)])
                           (max_from c cs)),
                max_from c cs)"
  using no_empty_rows [OF assms(1,3)] gather_ok_shapes [OF assms(1,2,4), of T] assms(5,6)
  by (simp add: evaluate_posterior_def Let_def)

lemma take_as_map: "n \<le> length xs \<Longrightarrow> take n xs = map (\<lambda>i. xs ! i) [0..<n]"
proof -
  assume n: "n \<le> length xs"
  have "take n xs = take n (map (\<lambda>i. xs ! i) [0..<length xs])" by (simp add: map_nth)
  also have "\<dots> = map (\<lambda>i. xs ! i) (take n [0..<length xs])" by (simp add: take_map)
  also have "take n [0..<length xs] = [0..<n]" using n by simp
  finally show ?thesis .
qed

lemma likelihood_entry:
  assumes "shape3 P (Suc D) V logits" and "shape2 P (Suc D) candidates" and "p < P" and "n \<le> D"
  shows "sum_list (map ln (take n (candidates_prob (posterior_prob logits T) candidates ! p)))
           = log_likelihood logits candidates T p n"
proof -
  let ?row = "candidates_prob (posterior_prob logits T) candidates ! p"
  have len: "length ?row = D" by (rule candidates_prob_nth(1) [OF assms(1,2,3)])
  have "take n ?row = map (\<lambda>i. ?row ! i) [0..<n]" using take_as_map len assms(4) by metis
  also have "\<dots> = map (\<lambda>i. softmax (map (\<lambda>x. x / T) (logits ! p ! i)) ! (candidates ! p ! Suc i)) [0..<n]"
  proof (rule map_cong [OF refl])
    fix i assume "i \<in> set [0..<n]"
    then have "i < D" using assms(4) by simp
    then show "?row ! i = softmax (map (\<lambda>x. x / T) (logits ! p ! i)) ! (candidates ! p ! Suc i)"
      by (rule candidates_prob_nth(2) [OF assms(1,2,3)])
  qed
  finally show ?thesis by (simp add: log_likelihood_def comp_def)
qed

lemma in_set_nonempty: "x \<in> set xs \<Longrightarrow> xs \<noteq> []"
  by auto

lemma typical_posterior:
  assumes "shape3 P (Suc D) V logits" and "shape2 P (Suc D) candidates"
    and "0 < P" and "0 < V" and "tokens_in_range V candidates" and "T \<noteq> 0"
  shows "\<exists>best al. evaluate_posterior logits candidates T pt pa = Inr (best, al) \<and>
           best < P \<and> longest_prefix (typical_accept logits candidates T pt pa best) D al \<and>
           (\<forall>p<P. \<forall>n. longest_prefix (typical_accept logits candidates T pt pa p) D n \<longrightarrow> n \<le> al) \<and>
           (\<forall>p<P. longest_prefix (typical_accept logits candidates T pt pa p) D al \<longrightarrow>
                log_likelihood logits candidates T p al \<le> log_likelihood logits candidates T best al)"
proof -
  let ?cp = "candidates_prob (posterior_prob logits T) candidates"
  let ?cal = "accept_lengths (typical_mask ?cp (threshold (posterior_prob logits T) pt pa))"
  let ?lp = "\<lambda>p. longest_prefix (typical_accept logits candidates T pt pa p) D"
  let ?ll = "log_likelihood logits candidates T"
  note gl = typical_lengths [OF assms(1,2), of T pt pa]
  obtain c cs where cal: "?cal = c # cs" using nonempty_cons [OF gl(1) assms(3)] by blast
  let ?al = "max_from c cs"
  define bcs where "bcs = filter (\<lambda>p. (c # cs) ! p = ?al) [0..<length (c # cs)]"
  define lik where "lik = likelihood ?cp bcs ?al"
  let ?best = "if ?al = 0 then 0 else bcs ! argmax lik"
  have ev: "evaluate_posterior logits candidates T pt pa = Inr (?best, ?al)"
    unfolding bcs_def lik_def by (rule evaluate_posterior_typical [OF assms(1,2,4,5,6) cal])
  have len: "length (c # cs) = P" using gl(1) cal by simp
  have ge: "\<And>q. q < P \<Longrightarrow> ?cal ! q \<le> ?al"
  proof -
    fix q assume "q < P"
    then have "?cal ! q \<in> set (c # cs)" using gl(1) cal by (metis nth_mem)
    then show "?cal ! q \<le> ?al" by (rule max_from_ge)
  qed
  have lpq: "\<And>q. q < P \<Longrightarrow> ?lp q (?cal ! q)" using gl(2) by blast
  have uniq: "\<And>q n. q < P \<Longrightarrow> ?lp q n \<Longrightarrow> n = ?cal ! q"
    using lpq longest_prefix_unique by blast
  have "?al \<in> set (c # cs)" by (rule max_from_mem)
  then obtain k where "k < length (c # cs)" "(c # cs) ! k = ?al"
    unfolding in_set_conv_nth by blast
  then have k: "k < P" "(c # cs) ! k = ?al" using len by simp_all
  have alD: "?al \<le> D" using lpq [OF k(1)] k(2) cal by (simp add: longest_prefix_def)
  have mem: "\<And>q. q \<in> set bcs \<longleftrightarrow> q < P \<and> (c # cs) ! q = ?al"
    unfolding bcs_def using len by auto
  have kin: "k \<in> set bcs" using k mem by blast
  have ne: "bcs \<noteq> []" using kin by (rule in_set_nonempty)
  have llen: "length lik = length bcs" by (simp add: lik_def likelihood_def)
  have "lik \<noteq> []" using ne llen by (cases lik) auto
  then have "argmax lik < length lik" by (rule argmax_less)
  then have am: "argmax lik < length bcs" using llen by simp
  have bin: "bcs ! argmax lik \<in> set bcs" using am by (rule nth_mem)
  have lik_nth: "\<And>i. i < length bcs \<Longrightarrow> lik ! i = ?ll (bcs ! i) ?al"
  proof -
    fix i assume i: "i < length bcs"
    have "bcs ! i \<in> set bcs" using i by (rule nth_mem)
    then have "bcs ! i < P" using mem by blast
    then have "sum_list (map ln (take ?al (?cp ! (bcs ! i)))) = ?ll (bcs ! i) ?al"
      using likelihood_entry [OF assms(1,2) _ alD] by blast
    then show "lik ! i = ?ll (bcs ! i) ?al" using i by (simp add: lik_def likelihood_def)
  qed
  have best_lt: "?best < P"
  proof (cases "?al = 0")
    case True then show ?thesis using assms(3) by simp
  next
    case False then show ?thesis using bin mem by simp
  qed
  have best_val: "?cal ! ?best = ?al"
  proof (cases "?al = 0")
    case True
    then have "?cal ! 0 = 0" using ge [OF assms(3)] by simp
    then show ?thesis using True by simp
  next
    case False then show ?thesis using bin mem cal by simp
  qed
  have attained: "?lp ?best ?al" using lpq [OF best_lt] best_val by simp
  have bound: "\<forall>p<P. \<forall>n. ?lp p n \<longrightarrow> n \<le> ?al"
  proof (intro allI impI)
    fix q n assume q: "q < P" and n: "?lp q n"
    show "n \<le> ?al" using uniq [OF q n] ge [OF q] by simp
  qed
  have tie: "\<forall>p<P. ?lp p ?al \<longrightarrow> ?ll p ?al \<le> ?ll ?best ?al"
  proof (intro allI impI)
    fix q assume q: "q < P" and a: "?lp q ?al"
    show "?ll q ?al \<le> ?ll ?best ?al"
    proof (cases "?al = 0")
      case True
      then show ?thesis by (simp add: log_likelihood_def)
    next
      case False
      have "(c # cs) ! q = ?al" using uniq [OF q a] cal by simp
      then have "q \<in> set bcs" using q mem by blast
      then obtain i where i: "i < length bcs" "bcs ! i = q"
        unfolding in_set_conv_nth by blast
      have "lik ! i \<le> lik ! argmax lik" using argmax_greatest i(1) llen by metis
      then have "?ll (bcs ! i) ?al \<le> ?ll (bcs ! argmax lik) ?al"
        using lik_nth [OF i(1)] lik_nth [OF am] by simp
      then show ?thesis using i(2) False by simp
    qed
  qed
  show ?thesis
    by (rule exI [of _ ?best], rule exI [of _ ?al])
      (intro conjI ev best_lt attained bound tie)
qed

lemma longest_prefix_mono:
  assumes "\<And>i. acc2 i \<Longrightarrow> acc1 i" and "longest_prefix acc2 D n2" and "longest_prefix acc1 D n1"
  shows "n2 \<le> n1"
proof (rule ccontr)
  assume "\<not> n2 \<le> n1"
  then have lt: "n1 < n2" by simp
  have "n2 \<le> D" using assms(2) by (simp add: longest_prefix_def)
  then have "n1 < D" using lt by simp
  then have "\<not> acc1 n1" using assms(3) by (simp add: longest_prefix_def)
  moreover have "acc2 n1" using assms(2) lt by (simp add: longest_prefix_def)
  ultimately show False using assms(1) by blast
qed

lemma threshold_entry_mono:
  fixes a1 a2 :: real
  assumes "a1 \<le> a2"
  shows "min pt (exp (- h) * a1) \<le> min pt (exp (- h) * a2)"
proof -
  have "exp (- h) * a1 \<le> exp (- h) * a2" using assms by (simp add: mult_left_mono)
  then show ?thesis by (simp add: min_le_iff_disj)
qed

lemma threshold_mono:
  assumes "a1 \<le> a2"
  shows "list_all2 (list_all2 (\<le>)) (threshold prob pt a1) (threshold prob pt a2)"
proof -
  have "\<forall>hs\<in>set (posterior_entropy prob). \<forall>h\<in>set hs.
          min pt (exp (- h) * a1) \<le> min pt (exp (- h) * a2)"
    using threshold_entry_mono [OF assms] by blast
  then show ?thesis
    unfolding threshold_def by (simp only: list_all2_map1 list_all2_map2 list_all2_same)
qed

lemma typical_accept_antimono:
  assumes "a1 \<le> a2" and "typical_accept logits candidates T pt a2 p i"
  shows "typical_accept logits candidates T pt a1 p i"
  using assms(2) threshold_entry_mono [OF assms(1),
      of pt "entropy (softmax (map (\<lambda>x. x / T) (logits ! p ! i)))"]
  unfolding typical_accept_def by linarith

text \<open>
  Claim C10, as stated, fails: with a larger \<open>posterior_alpha\<close> the accept length can drop.
  Two positions over a vocabulary of two equally likely tokens, \<open>posterior_threshold = 0.6\<close>:
  with \<open>posterior_alpha = 0.3\<close> the proposed token (probability 0.5) is accepted, with
  \<open>posterior_alpha = 1.1\<close> the threshold is above 0.5 and it is rejected.
\<close>

theorem alpha_accept_length_counterexample:
  "evaluate_posterior [[[0, 0], [0, 0]]] [[0, 0]] 1 (6 / 10) (3 / 10) = Inr (0, 1) \<and>
   evaluate_posterior [[[0, 0], [0, 0]]] [[0, 0]] 1 (6 / 10) (11 / 10) = Inr (0, 0)"
  by (simp add: evaluate_posterior_def posterior_prob_def gather_ok_def softmax_def
      candidates_prob_def threshold_def posterior_entropy_def entropy_def typical_mask_def
      accept_lengths_def cumprod_def likelihood_def Let_def)

text \<open>
  Claim C10, amended.  For fixed logits, candidates and temperature \<open>T > 0\<close> and
  \<open>a1 \<le> a2\<close>, every threshold computed with \<open>posterior_alpha = a2\<close> is at least the one
  computed with \<open>a1\<close>, and the accept length with \<open>a2\<close> is at most the accept length with \<open>a1\<close>:
  a position is accepted when its probability exceeds the threshold, so a higher threshold
  accepts less.
\<close>

theorem alpha_monotonicity:
  assumes "shape3 P (Suc D) V logits" and "shape2 P (Suc D) candidates"
    and "0 < P" and "0 < V" and "tokens_in_range V candidates" and "0 < T" and "a1 \<le> a2"
  shows "list_all2 (list_all2 (\<le>)) (threshold (posterior_prob logits T) pt a1)
           (threshold (posterior_prob logits T) pt a2) \<and>
         (\<exists>b1 l1 b2 l2. evaluate_posterior logits candidates T pt a1 = Inr (b1, l1) \<and>
            evaluate_posterior logits candidates T pt a2 = Inr (b2, l2) \<and> l2 \<le> l1)"
proof -
  have T: "T \<noteq> 0" using assms(6) by simp
  obtain b1 l1 where r1: "evaluate_posterior logits candidates T pt a1 = Inr (b1, l1)"
    and bound1: "\<forall>p<P. \<forall>n. longest_prefix (typical_accept logits candidates T pt a1 p) D n \<longrightarrow> n \<le> l1"
    using typical_posterior [OF assms(1-5) T, of pt a1] by blast
  obtain b2 l2 where r2: "evaluate_posterior logits candidates T pt a2 = Inr (b2, l2)"
    and b2: "b2 < P" and lp2: "longest_prefix (typical_accept logits candidates T pt a2 b2) D l2"
    using typical_posterior [OF assms(1-5) T, of pt a2] by blast
  obtain n1 where lp1: "longest_prefix (typical_accept logits candidates T pt a1 b2) D n1"
    using typical_lengths(2) [OF assms(1,2), of T pt a1] b2 by blast
  have "l2 \<le> n1"
    by (rule longest_prefix_mono [OF typical_accept_antimono [OF assms(7)] lp2 lp1])
  moreover have "n1 \<le> l1" using bound1 b2 lp1 by blast
  ultimately have "l2 \<le> l1" by simp
  then show ?thesis using threshold_mono [OF assms(7)] r1 r2 by blast
qed

theorem alpha_monotonicity_witness:
  "shape3 1 (Suc 1) 2 [[[0, 0], [0, 0 :: real]]] \<and> shape2 1 (Suc 1) [[0, 0 :: nat]] \<and>
   tokens_in_range 2 [[0, 0]] \<and> (0 :: real) < 1 \<and> (3 / 10 :: real) \<le> 11 / 10 \<and>
   list_all2 (list_all2 (\<le>)) (threshold (posterior_prob [[[0, 0], [0, 0]]] 1) (6 / 10) (3 / 10))
           (threshold (posterior_prob [[[0, 0], [0, 0]]] 1) (6 / 10) (11 / 10)) \<and>
   (\<exists>b1 l1 b2 l2. evaluate_posterior [[[0, 0], [0, 0]]] [[0, 0]] 1 (6 / 10) (3 / 10) = Inr (b1, l1) \<and>
      evaluate_posterior [[[0, 0], [0, 0]]] [[0, 0]] 1 (6 / 10) (11 / 10) = Inr (b2, l2) \<and> l2 \<le> l1)"
proof -
  have h1: "shape3 1 (Suc 1) 2 [[[0, 0], [0, 0 :: real]]]" by (simp add: shape3_def shape2_def)
  have h2: "shape2 1 (Suc 1) [[0, 0 :: nat]]" by (simp add: shape2_def)
  have h3: "0 < (1::nat)" by simp
  have h4: "0 < (2::nat)" by simp
  have h5: "tokens_in_range 2 [[0, 0]]" by (simp add: tokens_in_range_def)
  have h6: "(0 :: real) < 1" by simp
  have h7: "(3 / 10 :: real) \<le> 11 / 10" by simp
  from alpha_monotonicity [OF h1 h2 h3 h4 h5 h6 h7, of "6 / 10"]
  show ?thesis using h1 h2 h5 h6 h7 by blast
qed

lemma broadcast2_single: "broadcast2 f xs [y] = Inr (map (\<lambda>x. f x y) xs)"
proof (cases "length xs = 1")
  case True
  then obtain x where "xs = [x]" by (cases xs) auto
  then show ?thesis by (simp add: broadcast2_def)
next
  case False
  then show ?thesis by (simp add: broadcast2_def)
qed

lemma pad_finished_single:
  "pad_finished sel (Some eos) (Some pad) [u] = Inr (map (\<lambda>x. x * u + pad * (1 - u)) sel)"
  by (simp add: pad_finished_def broadcast2_single and_then_def comp_def)

lemma pad_finished_ValueError:
  "pad_finished sel eos_token_id pad_token_id us = Inl ValueError
     \<longleftrightarrow> eos_token_id \<noteq> None \<and> pad_token_id = None"
proof (cases eos_token_id)
  case None
  then show ?thesis by (simp add: pad_finished_def)
next
  case (Some eos)
  show ?thesis
  proof (cases pad_token_id)
    case None
    then show ?thesis using Some by (simp add: pad_finished_def)
  next
    case (Some pad)
    have "and_then (broadcast2 (*) sel us)
            (\<lambda>kept. broadcast2 (+) kept (map (\<lambda>u. pad * (1 - u)) us)) \<noteq> Inl ValueError"
      by (cases "broadcast2 (*) sel us")
        (auto simp: and_then_def broadcast2_def split: if_splits)
    then show ?thesis using Some \<open>eos_token_id = Some eos\<close> by (simp add: pad_finished_def)
  qed
qed

lemma update_inference_inputs_unfold:
  assumes "best_candidate < length retrieve_indices" and "best_candidate < length candidates"
    and "use_base_logits \<longrightarrow> (\<forall>ls\<in>set logits. ls \<noteq> [] \<and> hd ls \<noteq> [])"
  shows "update_inference_inputs input_ids candidates best_candidate accept_length retrieve_indices
           logits new_token eos_token_id pad_token_id unfinished_sequences use_base_logits =
         (case pad_finished
                 (selected_tokens candidates best_candidate accept_length logits use_base_logits)
                 eos_token_id pad_token_id unfinished_sequences of
            Inl e \<Rightarrow> Inl e
          | Inr next_tokens \<Rightarrow>
             if length input_ids \<noteq> 1 then Inl RuntimeError
             else if length logits \<le> best_candidate then Inl IndexError
             else Inr ([hd input_ids @ next_tokens],
                       [take 1 (drop accept_length (logits ! best_candidate))],
                       new_token + int accept_length + (if use_base_logits then 2 else 1),
                       [next_tokens]))"
proof -
  have guard: "\<not> (use_base_logits \<and> (\<exists>ls\<in>set logits. ls = [] \<or> hd ls = []))"
    using assms(3) by blast
  show ?thesis
    unfolding update_inference_inputs_def and_then_def using assms(1,2) guard
    by (simp only: if_False not_le [symmetric] if_True split: if_splits)
qed

section \<open>The bonus token and the padding override\<close>

text \<open>
  Claim C7, at a failing input.  Two paths, the second is the best one with accept length 1,
  \<open>use_base_logits\<close> set: the accepted tokens are \<open>5, 8\<close>, and the source appends two more tokens
  (the \<open>argmax\<close> of position 0 of each of the two paths, \<open>1\<close> and \<open>1\<close>) where the claim has one
  (the \<open>argmax\<close> of position 1 of the best path, \<open>0\<close>); the counter grows by 3 while four tokens
  were appended.
\<close>

theorem bonus_token_failing_input:
  "update_inference_inputs [[1, 2, 3]] [[5, 7], [5, 8]] 1 1 [[0, 1], [0, 2]]
     [[[0, 1], [1, 0]], [[0, 1], [1, 0]]] 3 None None [1] True
   = Inr ([[1, 2, 3, 5, 8, 1, 1]], [[[1, 0]]], 6, [[5, 8, 1, 1]])"
  by (simp add: update_inference_inputs_def selected_tokens_def pad_finished_def and_then_def)

text \<open>
  Claim C8.  When the indexing that precedes the check succeeds (the best candidate is a row of
  \<open>retrieve_indices\<close>, \<open>candidates\<close> and \<open>logits\<close>, and the logits read for the bonus token
  exist), \<open>update_inference_inputs\<close> raises \<open>ValueError\<close> exactly when \<open>eos_token_id\<close> is set
  and \<open>pad_token_id\<close> is not.  When both are set, for the one sequence of the batch: with its
  unfinished flag 0 every appended token is \<open>pad_token_id\<close>, with the flag 1 the selected tokens
  are appended unchanged.
\<close>

theorem pad_override:
  assumes "best_candidate < length retrieve_indices" and "best_candidate < length candidates"
    and "best_candidate < length logits"
    and "use_base_logits \<longrightarrow> (\<forall>ls\<in>set logits. ls \<noteq> [] \<and> hd ls \<noteq> [])"
  shows "(update_inference_inputs input_ids candidates best_candidate accept_length retrieve_indices
            logits new_token eos_token_id pad_token_id unfinished_sequences use_base_logits
          = Inl ValueError \<longleftrightarrow> eos_token_id \<noteq> None \<and> pad_token_id = None) \<and>
         (\<forall>eos pad ids. eos_token_id = Some eos \<and> pad_token_id = Some pad \<and> input_ids = [ids] \<longrightarrow>
            update_inference_inputs input_ids candidates best_candidate accept_length retrieve_indices
              logits new_token eos_token_id pad_token_id [0] use_base_logits
            = Inr ([ids @ map (\<lambda>t. pad)
                      (selected_tokens candidates best_candidate accept_length logits use_base_logits)],
                   [take 1 (drop accept_length (logits ! best_candidate))],
                   new_token + int accept_length + (if use_base_logits then 2 else 1),
                   [map (\<lambda>t. pad)
                      (selected_tokens candidates best_candidate accept_length logits use_base_logits)]) \<and>
            update_inference_inputs input_ids candidates best_candidate accept_length retrieve_indices
              logits new_token eos_token_id pad_token_id [1] use_base_logits
            = Inr ([ids @ selected_tokens candidates best_candidate accept_length logits use_base_logits],
                   [take 1 (drop accept_length (logits ! best_candidate))],
                   new_token + int accept_length + (if use_base_logits then 2 else 1),
                   [selected_tokens candidates best_candidate accept_length logits use_base_logits]))"
proof (intro conjI allI impI)
  let ?sel = "selected_tokens candidates best_candidate accept_length logits use_base_logits"
  note unf = update_inference_inputs_unfold [OF assms(1,2,4)]
  show "update_inference_inputs input_ids candidates best_candidate accept_length retrieve_indices
            logits new_token eos_token_id pad_token_id unfinished_sequences use_base_logits
          = Inl ValueError \<longleftrightarrow> eos_token_id \<noteq> None \<and> pad_token_id = None"
  proof (cases "pad_finished ?sel eos_token_id pad_token_id unfinished_sequences")
    case (Inl e)
    then have "update_inference_inputs input_ids candidates best_candidate accept_length
                 retrieve_indices logits new_token eos_token_id pad_token_id unfinished_sequences
                 use_base_logits = Inl e"
      by (simp add: unf)
    then show ?thesis using Inl pad_finished_ValueError [of ?sel eos_token_id pad_token_id unfinished_sequences]
      by simp
  next
    case (Inr r)
    then have "update_inference_inputs input_ids candidates best_candidate accept_length
                 retrieve_indices logits new_token eos_token_id pad_token_id unfinished_sequences
                 use_base_logits \<noteq> Inl ValueError"
      by (simp add: unf)
    then show ?thesis using Inr pad_finished_ValueError [of ?sel eos_token_id pad_token_id unfinished_sequences]
      by simp
  qed
next
  fix eos pad ids
  assume a: "eos_token_id = Some eos \<and> pad_token_id = Some pad \<and> input_ids = [ids]"
  let ?sel = "selected_tokens candidates best_candidate accept_length logits use_base_logits"
  show "update_inference_inputs input_ids candidates best_candidate accept_length retrieve_indices
              logits new_token eos_token_id pad_token_id [0] use_base_logits
            = Inr ([ids @ map (\<lambda>t. pad) ?sel],
                   [take 1 (drop accept_length (logits ! best_candidate))],
                   new_token + int accept_length + (if use_base_logits then 2 else 1),
                   [map (\<lambda>t. pad) ?sel])"
    using a assms(3) by (simp add: update_inference_inputs_unfold [OF assms(1,2,4)] pad_finished_single)
  show "update_inference_inputs input_ids candidates best_candidate accept_length retrieve_indices
              logits new_token eos_token_id pad_token_id [1] use_base_logits
            = Inr ([ids @ ?sel],
                   [take 1 (drop accept_length (logits ! best_candidate))],
                   new_token + int accept_length + (if use_base_logits then 2 else 1),
                   [?sel])"
    using a assms(3) by (simp add: update_inference_inputs_unfold [OF assms(1,2,4)] pad_finished_single)
qed

theorem pad_override_witness:
  "(1::nat) < length [[0, 1], [0, 2 :: int]] \<and> (1::nat) < length [[5, 7], [5, 8 :: int]] \<and>
   (1::nat) < length [[[0, 1], [1, 0]], [[0, 1], [1, 0 :: real]]] \<and>
   update_inference_inputs [[1, 2, 3]] [[5, 7], [5, 8]] 1 1 [[0, 1], [0, 2]]
     [[[0, 1], [1, 0]], [[0, 1], [1, 0]]] 3 (Some 9) (Some 0) [0] True
   = Inr ([[1, 2, 3, 0, 0, 0, 0]], [[[1, 0]]], 6, [[0, 0, 0, 0]]) \<and>
   update_inference_inputs [[1, 2, 3]] [[5, 7], [5, 8]] 1 1 [[0, 1], [0, 2]]
     [[[0, 1], [1, 0]], [[0, 1], [1, 0]]] 3 (Some 9) (Some 0) [1] True
   = Inr ([[1, 2, 3, 5, 8, 1, 1]], [[[1, 0]]], 6, [[5, 8, 1, 1]])"
proof -
  have h1: "(1::nat) < length [[0, 1], [0, 2 :: int]]" by simp
  have h2: "(1::nat) < length [[5, 7], [5, 8 :: int]]" by simp
  have h3: "(1::nat) < length [[[0, 1], [1, 0]], [[0, 1], [1, 0 :: real]]]" by simp
  have h4: "True \<longrightarrow> (\<forall>ls\<in>set [[[0, 1], [1, 0]], [[0, 1], [1, 0 :: real]]]. ls \<noteq> [] \<and> hd ls \<noteq> [])"
    by simp
  have sel: "selected_tokens [[5, 7], [5, 8]] 1 1 [[[0, 1], [1, 0]], [[0, 1], [1, 0]]] True
               = [5, 8, 1, 1]"
    by (simp add: selected_tokens_def)
  have row: "take 1 (drop 1 ([[[0, 1], [1, 0]], [[0, 1], [1, 0 :: real]]] ! 1)) = [[1, 0]]"
    by simp
  have cfg: "Some (9::int) = Some 9 \<and> Some (0::int) = Some 0 \<and> [[1, 2, 3 :: int]] = [[1, 2, 3]]"
    by simp
  note t = pad_override [OF h1 h2 h3 h4, of "[[1, 2, 3]]" 1 3 "Some 9" "Some 0" "[1]",
      THEN conjunct2, rule_format, OF cfg]
  have a: "update_inference_inputs [[1, 2, 3]] [[5, 7], [5, 8]] 1 1 [[0, 1], [0, 2]]
     [[[0, 1], [1, 0]], [[0, 1], [1, 0]]] 3 (Some 9) (Some 0) [0] True
   = Inr ([[1, 2, 3, 0, 0, 0, 0]], [[[1, 0]]], 6, [[0, 0, 0, 0]])"
    using t [THEN conjunct1] unfolding sel row by simp
  have b: "update_inference_inputs [[1, 2, 3]] [[5, 7], [5, 8]] 1 1 [[0, 1], [0, 2]]
     [[[0, 1], [1, 0]], [[0, 1], [1, 0]]] 3 (Some 9) (Some 0) [1] True
   = Inr ([[1, 2, 3, 5, 8, 1, 1]], [[[1, 0]]], 6, [[5, 8, 1, 1]])"
    using t [THEN conjunct2] unfolding sel row by simp
  show ?thesis using h1 h2 h3 a b by (intro conjI)
qed

section \<open>Typical acceptance in machine arithmetic\<close>













lemma softmax_real_ops: "softmax_fp real_ops xs = softmax xs"
proof -
  have "map (\<lambda>x. exp x / sum_list (map exp xs)) (map (\<lambda>i. xs ! i) [0..<length xs])
          = softmax_fp real_ops xs"
    by (simp add: softmax_fp_def real_ops_def)
  then show ?thesis by (simp only: map_nth softmax_def)
qed

lemma posterior_prob_real_ops: "posterior_prob_fp real_ops logits T = posterior_prob logits T"
  by (simp add: posterior_prob_fp_def posterior_prob_def softmax_real_ops) (simp add: real_ops_def)

lemma entropy_real_ops: "entropy_fp real_ops p = entropy p"
  by (simp add: entropy_fp_def entropy_def real_ops_def)

lemma threshold_real_ops: "threshold_fp real_ops prob pt pa = threshold prob pt pa"
  by (simp add: threshold_fp_def threshold_def posterior_entropy_fp_def posterior_entropy_def
      entropy_real_ops) (simp add: real_ops_def)

lemma likelihood_real_ops: "likelihood_fp real_ops cprob bcs al = likelihood cprob bcs al"
  by (simp add: likelihood_fp_def likelihood_def real_ops_def)

lemma evaluate_posterior_real_ops:
  "evaluate_posterior_fp real_ops logits candidates T pt pa = evaluate_posterior logits candidates T pt pa"
  unfolding evaluate_posterior_fp_def evaluate_posterior_def
  by (simp only: posterior_prob_real_ops threshold_real_ops likelihood_real_ops)



section \<open>Candidate generation\<close>

lemma map_e_ok: "(\<And>x. x \<in> set xs \<Longrightarrow> f x = Inr (g x)) \<Longrightarrow> map_e f xs = Inr (map g xs)"
  by (induction xs) (simp_all add: and_then_def)

lemma topk_length: "k \<le> length x \<Longrightarrow> length (topk x k) = k"
  by (simp add: topk_def)

lemma head_candidates_ok:
  assumes "head \<noteq> []" and "hd head \<noteq> []" and "0 \<le> k" and "k \<le> int (length (last (hd head)))"
  shows "head_candidates head k = Inr (topk (last (hd head)) (nat k))"
  using assms by (simp add: head_candidates_def)

lemma remdups_single:
  assumes "length (remdups xs) = 1" and "i < length xs"
  shows "xs ! i = xs ! 0"
proof -
  obtain a where a: "remdups xs = [a]" using assms(1) by (cases "remdups xs") auto
  have "set xs = {a}" using a by (metis set_remdups list.simps(15) empty_set)
  moreover have "xs ! i \<in> set xs" using assms(2) by simp
  moreover have "xs ! 0 \<in> set xs" using assms(2) by (cases xs) auto
  ultimately show ?thesis by simp
qed

lemma product_lists_rows:
  "r \<in> set (product_lists ([x] # tensors)) \<Longrightarrow> length r = Suc (length tensors) \<and> hd r = x"
  by (auto dest: in_set_product_lists_length)

lemma length_product_lists_int:
  "\<forall>k\<in>set ks. 0 \<le> k \<Longrightarrow> map length tensors = map nat ks \<Longrightarrow>
     int (length (product_lists tensors)) = prod_list ks"
proof (induction ks arbitrary: tensors)
  case Nil
  then show ?case by simp
next
  case (Cons k ks)
  then obtain t ts where t: "tensors = t # ts" by (cases tensors) auto
  have "int (length (product_lists ts)) = prod_list ks" using Cons t by simp
  moreover have "length t = nat k" using Cons.prems(2) t by simp
  ultimately show ?case using Cons.prems(1) t by (simp add: length_concat comp_def sum_list_triv)
qed


lemma index_select_ok:
  assumes "\<forall>i\<in>set idx. 0 \<le> i \<and> i < int (length xs)"
  shows "index_select xs idx = Inr (map (\<lambda>i. xs ! nat i) idx)"
  unfolding index_select_def
proof (rule map_e_ok)
  fix i assume "i \<in> set idx"
  hence i: "0 \<le> i" "i < int (length xs)" using assms by auto
  hence "i mod int (length xs) = i" by simp
  thus "(if - int (length xs) \<le> i \<and> i < int (length xs)
         then Inr (xs ! nat (i mod int (length xs))) else Inl IndexError) = Inr (xs ! nat i)"
    using i by simp
qed

lemma head_candidates_all:
  assumes wf: "\<forall>head\<in>set medusa_logits. head \<noteq> [] \<and> hd head \<noteq> [] \<and> length (last (hd head)) = V"
    and len: "length medusa_topk = length medusa_logits"
    and ks: "\<forall>k\<in>set medusa_topk. 1 \<le> k \<and> k \<le> int V"
  shows "\<exists>heads. medusa_candidates medusa_logits medusa_topk = Inr heads
    \<and> map length heads = map nat medusa_topk"
proof (cases "length (remdups medusa_topk) = 1")
  case True
  have eq: "\<And>i. i < length medusa_topk \<Longrightarrow> medusa_topk ! i = medusa_topk ! 0"
    using True by (rule remdups_single)
  have ne: "medusa_topk \<noteq> []" using True by auto
  hence k0: "1 \<le> medusa_topk ! 0 \<and> medusa_topk ! 0 \<le> int V" using ks by simp
  let ?g = "\<lambda>head. topk (last (hd head)) (nat (medusa_topk ! 0))"
  have "map_e (\<lambda>head. head_candidates head (medusa_topk ! 0)) medusa_logits
          = Inr (map ?g medusa_logits)"
  proof (rule map_e_ok)
    fix head assume "head \<in> set medusa_logits"
    hence "head \<noteq> []" "hd head \<noteq> []" "length (last (hd head)) = V" using wf by auto
    thus "head_candidates head (medusa_topk ! 0) = Inr (?g head)"
      using k0 by (simp add: head_candidates_ok)
  qed
  moreover have "map length (map ?g medusa_logits) = map nat medusa_topk"
  proof (rule nth_equalityI)
    show "length (map length (map ?g medusa_logits)) = length (map nat medusa_topk)"
      using len by simp
  next
    fix i assume "i < length (map length (map ?g medusa_logits))"
    hence i: "i < length medusa_logits" by simp
    hence "medusa_logits ! i \<in> set medusa_logits" by simp
    hence "length (last (hd (medusa_logits ! i))) = V" using wf by blast
    moreover have "nat (medusa_topk ! 0) \<le> V" using k0 by linarith
    ultimately have "length (?g (medusa_logits ! i)) = nat (medusa_topk ! 0)"
      by (simp add: topk_length)
    thus "map length (map ?g medusa_logits) ! i = map nat medusa_topk ! i"
      using i len eq [of i] by simp
  qed
  ultimately show ?thesis unfolding medusa_candidates_def using True by simp
next
  case False
  let ?g = "\<lambda>i. topk (last (hd (medusa_logits ! i))) (nat (medusa_topk ! i))"
  have "map_e (\<lambda>i. if length medusa_topk \<le> i then Inl IndexError
                      else head_candidates (medusa_logits ! i) (medusa_topk ! i))
            [0..<length medusa_logits] = Inr (map ?g [0..<length medusa_logits])"
  proof (rule map_e_ok)
    fix i assume "i \<in> set [0..<length medusa_logits]"
    hence i: "i < length medusa_logits" by simp
    hence "medusa_logits ! i \<in> set medusa_logits" by simp
    hence h: "medusa_logits ! i \<noteq> []" "hd (medusa_logits ! i) \<noteq> []"
      "length (last (hd (medusa_logits ! i))) = V" using wf by auto
    have "medusa_topk ! i \<in> set medusa_topk" using i len by simp
    hence "1 \<le> medusa_topk ! i \<and> medusa_topk ! i \<le> int V" using ks by blast
    thus "(if length medusa_topk \<le> i then Inl IndexError
           else head_candidates (medusa_logits ! i) (medusa_topk ! i)) = Inr (?g i)"
      using h i len by (simp add: head_candidates_ok)
  qed
  moreover have "map length (map ?g [0..<length medusa_logits]) = map nat medusa_topk"
  proof (rule nth_equalityI)
    show "length (map length (map ?g [0..<length medusa_logits])) = length (map nat medusa_topk)"
      using len by simp
  next
    fix i assume "i < length (map length (map ?g [0..<length medusa_logits]))"
    hence i: "i < length medusa_logits" by simp
    hence "medusa_logits ! i \<in> set medusa_logits" by simp
    hence V: "length (last (hd (medusa_logits ! i))) = V" using wf by blast
    have "medusa_topk ! i \<in> set medusa_topk" using i len by simp
    hence "1 \<le> medusa_topk ! i \<and> medusa_topk ! i \<le> int V" using ks by blast
    hence "nat (medusa_topk ! i) \<le> V" by linarith
    hence "length (?g i) = nat (medusa_topk ! i)" using V by (simp add: topk_length)
    thus "map length (map ?g [0..<length medusa_logits]) ! i = map nat medusa_topk ! i"
      using i len by simp
  qed
  ultimately show ?thesis unfolding medusa_candidates_def using False by simp
qed

lemma length_concat_nat:
  "\<forall>k\<in>set ks. 0 \<le> k \<Longrightarrow> map length tensors = map nat ks \<Longrightarrow>
     int (length (concat tensors)) = sum_list ks"
proof (induction ks arbitrary: tensors)
  case Nil
  then show ?case by simp
next
  case (Cons k ks)
  then obtain t ts where t: "tensors = t # ts" by (cases tensors) auto
  have "int (length (concat ts)) = sum_list ks" using Cons t by simp
  moreover have "length t = nat k" using Cons.prems(2) t by simp
  ultimately show ?case using Cons.prems(1) t by simp
qed

text \<open>
  Claim C6.  Let the base logits have a non-empty batch whose rows have a last position with a
  non-empty vocabulary, let every head have a last position at batch 0 with a vocabulary of \<open>V\<close>
  tokens, let \<open>medusa_topk\<close> give one value per head (at least one head), each between 1 and
  \<open>V\<close>, and let \<open>tree_indices\<close> point into the flattened candidate pool (the root token followed
  by the top-k tokens of every head).  Then \<open>generate_candidates\<close> returns a matrix of paths and a
  tree tensor of one row such that every path has one token per head after the root token
  \<open>argmax(logits[:, -1])\<close> with which it starts, the number of paths is the product of the
  top-k values, and the tree row has as many entries as \<open>tree_indices\<close>.
\<close>

theorem generate_candidates_shape:
  assumes "logits \<noteq> []"
    and "\<forall>row\<in>set logits. row \<noteq> [] \<and> last row \<noteq> []"
    and "medusa_logits \<noteq> []"
    and "\<forall>head\<in>set medusa_logits. head \<noteq> [] \<and> hd head \<noteq> [] \<and> length (last (hd head)) = V"
    and "length medusa_topk = length medusa_logits"
    and "\<forall>k\<in>set medusa_topk. 1 \<le> k \<and> k \<le> int V"
    and "\<forall>i\<in>set tree_indices. 0 \<le> i \<and> i < 1 + sum_list medusa_topk"
  shows "\<exists>candidates tree_candidates.
    generate_candidates medusa_logits logits medusa_topk tree_indices
      = Inr (Matrix candidates, [tree_candidates])
    \<and> (\<forall>path\<in>set candidates. length path = Suc (length medusa_logits)
           \<and> hd path = argmax (concat (map last logits)))
    \<and> int (length candidates) = prod_list medusa_topk
    \<and> length tree_candidates = length tree_indices"
proof -
  define root where "root = argmax (concat (map last logits))"
  obtain heads where heads: "medusa_candidates medusa_logits medusa_topk = Inr heads"
    and lens: "map length heads = map nat medusa_topk"
    using head_candidates_all [OF assms(4) assms(5) assms(6)] by blast
  have nonneg: "\<forall>k\<in>set medusa_topk. 0 \<le> k" using assms(6) by auto
  have "length (map length heads) = length (map nat medusa_topk)" using lens by (rule arg_cong)
  hence lh: "length heads = length medusa_logits" using assms(5) by simp
  hence hne: "heads \<noteq> []" using assms(3) by auto
  have flat: "int (length (concat ([root] # heads))) = 1 + sum_list medusa_topk"
    using length_concat_nat [OF nonneg lens] by simp
  define tree where "tree = map (\<lambda>i. concat ([root] # heads) ! nat i) tree_indices"
  have sel: "index_select (concat ([root] # heads)) tree_indices = Inr tree"
    unfolding tree_def using assms(7) flat by (intro index_select_ok) simp
  have cart: "cartesian_prod ([root] # heads) = Matrix (product_lists ([root] # heads))"
    using hne by (cases heads) (simp_all add: cartesian_prod_def)
  have l1: "\<not> (\<exists>row\<in>set logits. row = [])" using assms(2) by blast
  obtain r rs where "logits = r # rs" using assms(1) by (cases logits) auto
  hence l2: "concat (map last logits) \<noteq> []" using assms(2) by simp
  have run: "generate_candidates medusa_logits logits medusa_topk tree_indices
      = Inr (Matrix (product_lists ([root] # heads)), [tree])"
    unfolding generate_candidates_def
    by (simp only: l1 l2 if_False heads and_then_def sum.case root_def [symmetric] sel cart)
  have rows: "\<forall>path\<in>set (product_lists ([root] # heads)).
                length path = Suc (length heads) \<and> hd path = root"
  proof
    fix path assume "path \<in> set (product_lists ([root] # heads))"
    thus "length path = Suc (length heads) \<and> hd path = root" by (rule product_lists_rows)
  qed
  have "int (length (product_lists heads)) = prod_list medusa_topk"
    using nonneg lens by (rule length_product_lists_int)
  hence count: "int (length (product_lists ([root] # heads))) = prod_list medusa_topk"
    by (simp add: length_concat comp_def sum_list_triv)
  have tl: "length tree = length tree_indices" by (simp add: tree_def)
  have rows': "\<forall>path\<in>set (product_lists ([root] # heads)).
                 length path = Suc (length medusa_logits)
                 \<and> hd path = argmax (concat (map last logits))"
    using rows by (simp only: root_def lh)
  show ?thesis
    by (rule exI [of _ "product_lists ([root] # heads)"], rule exI [of _ tree])
       (intro conjI run rows' count tl)
qed

theorem generate_candidates_shape_witness:
  "\<exists>candidates tree_candidates.
     generate_candidates [[[[1, 0]]], [[[0, 1]]]] [[[0, 1]]] [2, 1] [0, 1, 2, 3]
       = Inr (Matrix candidates, [tree_candidates])
     \<and> length candidates = 2 \<and> length tree_candidates = 4"
proof -
  have h1: "[[[0, 1 :: real]]] \<noteq> []" by simp
  have h2: "\<forall>row\<in>set [[[0, 1 :: real]]]. row \<noteq> [] \<and> last row \<noteq> []" by simp
  have h3: "[[[[1, 0]]], [[[0, 1 :: real]]]] \<noteq> []" by simp
  have h4: "\<forall>head\<in>set [[[[1, 0]]], [[[0, 1 :: real]]]].
              head \<noteq> [] \<and> hd head \<noteq> [] \<and> length (last (hd head)) = 2"
    by simp
  have h5: "length [2, 1 :: int] = length [[[[1, 0]]], [[[0, 1 :: real]]]]" by simp
  have h6: "\<forall>k\<in>set [2, 1 :: int]. 1 \<le> k \<and> k \<le> int 2" by simp
  have h7: "\<forall>i\<in>set [0, 1, 2, 3 :: int]. 0 \<le> i \<and> i < 1 + sum_list [2, 1]" by simp
  from generate_candidates_shape [OF h1 h2 h3 h4 h5 h6 h7]
  obtain c t where
    r: "generate_candidates [[[[1, 0]]], [[[0, 1]]]] [[[0, 1]]] [2, 1] [0, 1, 2, 3] = Inr (Matrix c, [t])"
    and n: "int (length c) = prod_list [2, 1]" and l: "length t = length [0, 1, 2, 3 :: int]"
    by (elim exE conjE)
  have "length c = 2" using n by simp
  moreover have "length t = 4" using l by simp
  ultimately show ?thesis using r by (intro exI conjI)
qed

section \<open>Facts about the buffer loops\<close>

lemma and_then_Inr [simp]: "and_then (Inr x) f = f x"
  by (simp add: and_then_def)

lemma and_then_Inl [simp]: "and_then (Inl e) f = Inl e"
  by (simp add: and_then_def)

lemma for_each_append:
  "for_each body (xs @ ys) s = and_then (for_each body xs s) (for_each body ys)"
proof (induction xs arbitrary: s)
  case Nil
  show ?case by simp
next
  case (Cons x xs)
  show ?case
  proof (cases "body x s")
    case (Inl e) then show ?thesis by simp
  next
    case (Inr t) then show ?thesis using Cons by simp
  qed
qed

lemma for_each_invariant:
  assumes "Inv 0 s0"
    and "\<And>i s. i < n \<Longrightarrow> Inv i s \<Longrightarrow> \<exists>s'. body i s = Inr s' \<and> Inv (Suc i) s'"
  shows "\<exists>s'. for_each body [0..<n] s0 = Inr s' \<and> Inv n s'"
  using assms(2)
proof (induction n)
  case 0
  show ?case using assms(1) by simp
next
  case (Suc n)
  have "\<exists>s'. for_each body [0..<n] s0 = Inr s' \<and> Inv n s'"
  proof (rule Suc.IH)
    fix i s assume "i < n" and "Inv i s"
    then show "\<exists>s'. body i s = Inr s' \<and> Inv (Suc i) s'" using Suc.prems [of i s] by simp
  qed
  then obtain s1 where s1: "for_each body [0..<n] s0 = Inr s1" "Inv n s1" by blast
  obtain s2 where s2: "body n s1 = Inr s2" "Inv (Suc n) s2" using Suc.prems [of n s1] s1(2) by blast
  have "for_each body [0..<Suc n] s0 = Inr s2"
    using s1(1) s2(1) by (simp add: for_each_append)
  then show ?case using s2(2) by blast
qed


lemma cumprod_from_length [simp]: "length (cumprod_from a xs) = length xs"
  by (induction xs arbitrary: a) simp_all

lemma cumprod_length [simp]: "length (cumprod xs) = length xs"
  by (simp add: cumprod_def)

lemma cumprod_from_nth:
  "i < length xs \<Longrightarrow> cumprod_from a xs ! i = a * prod_list (take (Suc i) xs)"
  for a :: int
proof (induction xs arbitrary: a i)
  case Nil
  then show ?case by simp
next
  case (Cons x xs)
  show ?case
  proof (cases i)
    case 0 then show ?thesis by simp
  next
    case (Suc j)
    then have "j < length xs" using Cons.prems by simp
    then show ?thesis using Cons.IH [of j "a * x"] Suc by (simp add: mult.assoc)
  qed
qed

lemma cumprod_nth:
  "i < length b \<Longrightarrow> cumprod b ! i = prod_list (take (Suc i) b)" for b :: "int list"
  by (simp add: cumprod_def cumprod_from_nth)

lemma cumsum_from_length [simp]: "length (cumsum_from a xs) = length xs"
  by (induction xs arbitrary: a) simp_all

lemma cumsum_length [simp]: "length (cumsum xs) = length xs"
  by (simp add: cumsum_def)

lemma cumsum_from_nth:
  "i < length xs \<Longrightarrow> cumsum_from a xs ! i = a + sum_list (take (Suc i) xs)"
proof (induction xs arbitrary: a i)
  case Nil
  then show ?case by simp
next
  case (Cons x xs)
  show ?case
  proof (cases i)
    case 0 then show ?thesis by simp
  next
    case (Suc j)
    then have "j < length xs" using Cons.prems by simp
    then show ?thesis using Cons.IH [of j "a + x"] Suc by simp
  qed
qed

lemma cumsum_nth: "i < length b \<Longrightarrow> cumsum b ! i = sum_list (take (Suc i) b)"
  by (simp add: cumsum_def cumsum_from_nth)

lemma cumsum_last: "b \<noteq> [] \<Longrightarrow> last (cumsum b) = sum_list b"
proof -
  assume ne: "b \<noteq> []"
  then have "cumsum b \<noteq> []" by (metis cumsum_length length_0_conv)
  then have "last (cumsum b) = cumsum b ! (length b - 1)" by (simp add: last_conv_nth)
  also have "\<dots> = sum_list (take (Suc (length b - 1)) b)" using ne by (simp add: cumsum_nth)
  finally show ?thesis using ne by simp
qed



















lemma sum_take_Suc:
  "i < length xs \<Longrightarrow> sum_list (take (Suc i) xs) = sum_list (take i xs) + xs ! i"
  for xs :: "int list"
  by (simp add: take_Suc_conv_app_nth)

lemma prod_take_Suc:
  "i < length xs \<Longrightarrow> prod_list (take (Suc i) xs) = prod_list (take i xs) * xs ! i"
  for xs :: "int list"
  by (simp add: take_Suc_conv_app_nth)






lemma arange_ok: "lo \<le> hi \<Longrightarrow> arange lo hi = Inr (map (\<lambda>k. lo + int k) [0..<nat (hi - lo)])"
proof -
  assume le: "lo \<le> hi"
  have "[lo..hi - 1] = map (\<lambda>k. lo + int k) [0..<nat (hi - lo)]"
  proof (rule nth_equalityI)
    show "length [lo..hi - 1] = length (map (\<lambda>k. lo + int k) [0..<nat (hi - lo)])"
      using le by simp
  next
    fix i assume "i < length [lo..hi - 1]"
    then have i: "i < nat (hi - lo)" using le by simp
    then have "lo + int i \<le> hi - 1" by linarith
    then have "[lo..hi - 1] ! i = lo + int i" by simp
    moreover have "map (\<lambda>k. lo + int k) [0..<nat (hi - lo)] ! i = lo + int i"
      using i by simp
    ultimately show "[lo..hi - 1] ! i = map (\<lambda>k. lo + int k) [0..<nat (hi - lo)] ! i"
      by simp
  qed
  then show ?thesis using le by (simp add: arange_def)
qed

lemma repeat_ok: "0 \<le> n \<Longrightarrow> repeat n x = Inr (replicate (nat n) x)"
  by (simp add: repeat_def)

lemma tile_ok: "0 \<le> n \<Longrightarrow> tile n x = Inr (concat (replicate (nat n) x))"
  by (simp add: tile_def)

lemma transpose_replicate:
  "concat (transpose (replicate k xs)) = concat (map (replicate k) xs)"
proof (cases "k = 0")
  case True
  then show ?thesis by simp
next
  case False
  then have k: "0 < k" by simp
  have ne: "replicate k xs = [] \<Longrightarrow> length xs = 0" using k by simp
  have rect: "\<And>i. i < length (replicate k xs) \<Longrightarrow> length (replicate k xs ! i) = length xs"
    by simp
  have t: "transpose (replicate k xs) =
          map (\<lambda>i. map (\<lambda>j. replicate k xs ! j ! i) [0..<length (replicate k xs)]) [0..<length xs]"
    using ne rect by (rule transpose_rectangle)
  have "map (\<lambda>i. map (\<lambda>j. replicate k xs ! j ! i) [0..<length (replicate k xs)]) [0..<length xs]
          = map (replicate k) xs"
  proof (rule nth_equalityI)
    show "length (map (\<lambda>i. map (\<lambda>j. replicate k xs ! j ! i) [0..<length (replicate k xs)])
            [0..<length xs]) = length (map (replicate k) xs)"
      by simp
  next
    fix i
    assume "i < length (map (\<lambda>i. map (\<lambda>j. replicate k xs ! j ! i) [0..<length (replicate k xs)])
                  [0..<length xs])"
    then have i: "i < length xs" by simp
    have "map (\<lambda>j. replicate k xs ! j ! i) [0..<k] = replicate k (xs ! i)"
      by (rule nth_equalityI) simp_all
    then show "map (\<lambda>i. map (\<lambda>j. replicate k xs ! j ! i) [0..<length (replicate k xs)])
                 [0..<length xs] ! i = map (replicate k) xs ! i"
      using i by simp
  qed
  then show ?thesis using t by simp
qed

lemma concat_replicate_length:
  "length (concat (map (replicate k) xs)) = length xs * k"
  by (induction xs) simp_all

lemma concat_replicate_nth:
  "r < length xs * k \<Longrightarrow> concat (map (replicate k) xs) ! r = xs ! (r div k)"
proof (induction xs arbitrary: r)
  case Nil
  then show ?case by simp
next
  case (Cons x xs)
  have k: "0 < k" using Cons.prems by (cases k) auto
  show ?case
  proof (cases "r < k")
    case True
    then show ?thesis by (simp add: nth_append)
  next
    case False
    then have ge: "k \<le> r" by simp
    have "r - k < length xs * k" using Cons.prems ge by simp
    then have "concat (map (replicate k) xs) ! (r - k) = xs ! ((r - k) div k)" by (rule Cons.IH)
    moreover have "r div k = Suc ((r - k) div k)" using ge k by (simp add: le_div_geq)
    ultimately show ?thesis using False by (simp add: nth_append)
  qed
qed

lemma slice_bound_ok: "0 \<le> k \<Longrightarrow> k \<le> int n \<Longrightarrow> slice_bound n k = nat k"
  by (simp add: slice_bound_def)

lemma py_slice_length:
  assumes "0 \<le> lo" and "lo \<le> hi" and "hi \<le> int (length xs)"
  shows "length (py_slice xs lo hi) = nat (hi - lo)"
proof -
  have "slice_bound (length xs) lo = nat lo" using assms by (simp add: slice_bound_ok)
  moreover have "slice_bound (length xs) hi = nat hi" using assms by (simp add: slice_bound_ok)
  ultimately show ?thesis using assms by (simp add: py_slice_def)
qed

lemma prod_list_pos: "\<forall>x\<in>set xs. 0 < x \<Longrightarrow> 0 < prod_list xs" for xs :: "int list"
  by (induction xs) simp_all

lemma prod_take_pos: "\<forall>x\<in>set b. 0 < x \<Longrightarrow> 0 < prod_list (take k b)" for b :: "int list"
proof -
  assume pos: "\<forall>x\<in>set b. 0 < x"
  have "\<forall>x\<in>set (take k b). 0 < x" using pos by (meson in_set_takeD)
  then show ?thesis by (rule prod_list_pos)
qed

lemma cumprod_pos:
  "\<forall>x\<in>set b. 0 < x \<Longrightarrow> i < length b \<Longrightarrow> 0 < cumprod b ! i" for b :: "int list"
  by (simp add: cumprod_nth prod_take_pos)

lemma cumprod_step:
  "i < length b \<Longrightarrow> cumprod b ! i = prod_list (take i b) * b ! i" for b :: "int list"
  by (simp add: cumprod_nth prod_take_Suc)

lemma prod_take_dvd: "prod_list (take k b) dvd prod_list b" for b :: "int list"
proof -
  have "prod_list b = prod_list (take k b) * prod_list (drop k b)"
    by (metis append_take_drop_id prod_list.append)
  then show ?thesis by simp
qed

lemma cumprod_dvd: "i < length b \<Longrightarrow> cumprod b ! i dvd prod_list b" for b :: "int list"
  by (simp add: cumprod_nth prod_take_dvd)

lemma level_step:
  "d < length b \<Longrightarrow>
     sum_list (take (Suc d) (cumprod b)) = sum_list (take d (cumprod b)) + cumprod b ! d"
  for b :: "int list"
  by (simp add: sum_take_Suc)

lemma level_nonneg:
  "\<forall>x\<in>set b. 0 < x \<Longrightarrow> 0 \<le> sum_list (take d (cumprod b))" for b :: "int list"
proof (induction d)
  case 0
  show ?case by simp
next
  case (Suc d)
  show ?case
  proof (cases "d < length b")
    case True
    then show ?thesis using Suc cumprod_pos [of b d] by (simp add: level_step)
  next
    case False
    then show ?thesis using Suc by simp
  qed
qed

lemma nat_mult_div:
  assumes "0 < c" and "c dvd p" and "0 \<le> p"
  shows "nat c * nat (p div c) = nat p"
proof -
  have "c * (p div c) = p" using assms(2) by simp
  moreover have "0 \<le> p div c" using assms(1,3) by (simp add: pos_imp_zdiv_nonneg_iff)
  ultimately show ?thesis using assms(1) by (metis nat_mult_distrib less_imp_le)
qed

lemma set_column_ok:
  "length col = length m \<Longrightarrow> set_column m i col = Inr (map2 (\<lambda>row v. row[i := v]) m col)"
  by (simp add: set_column_def)

lemma retrieve_step_ok:
  fixes b :: "int list"
  assumes pos: "\<forall>x\<in>set b. 0 < x" and i: "i < length b"
    and prev: "prev = sum_list (take i (cumprod b))"
    and len: "length ri = nat (prod_list b)"
  shows "retrieve_step (cumprod b) (prod_list b) i (ri, prev)
     = Inr (map2 (\<lambda>row v. row[i := v]) ri
              (concat (map (replicate (nat (prod_list b div cumprod b ! i)))
                 (map (\<lambda>k. prev + int k) [0..<nat (cumprod b ! i)]))),
            sum_list (take (Suc i) (cumprod b)))"
proof -
  let ?cp = "cumprod b"
  let ?next = "sum_list (take (Suc i) ?cp)"
  let ?k = "nat (prod_list b div ?cp ! i)"
  let ?xs = "map (\<lambda>k. prev + int k) [0..<nat (?cp ! i)]"
  have cpi: "0 < ?cp ! i" by (rule cumprod_pos [OF pos i])
  have nxt: "?next = prev + ?cp ! i" using i prev by (simp add: level_step)
  have diff: "?next - prev = ?cp ! i" using nxt by simp
  have ar: "arange prev ?next = Inr ?xs"
    using arange_ok [of prev ?next] cpi nxt by simp
  have P: "0 < prod_list b" using pos by (rule prod_list_pos)
  have q: "0 \<le> prod_list b div ?cp ! i" using cpi P by (simp add: pos_imp_zdiv_nonneg_iff)
  have rep: "repeat (prod_list b div ?cp ! i) ?xs = Inr (replicate ?k ?xs)"
    using q by (rule repeat_ok)
  have col: "concat (transpose (replicate ?k ?xs)) = concat (map (replicate ?k) ?xs)"
    by (rule transpose_replicate)
  have "length ?xs = nat (?cp ! i)" by simp
  then have "length (concat (map (replicate ?k) ?xs)) = nat (?cp ! i) * ?k"
    by (simp only: concat_replicate_length)
  also have "\<dots> = nat (prod_list b)"
    using cpi cumprod_dvd [OF i] P by (intro nat_mult_div) simp_all
  finally have cl: "length (concat (map (replicate ?k) ?xs)) = length ri" using len by simp
  have sc: "set_column ri i (concat (map (replicate ?k) ?xs))
              = Inr (map2 (\<lambda>row v. row[i := v]) ri (concat (map (replicate ?k) ?xs)))"
    using cl by (rule set_column_ok)
  have nz: "?cp ! i \<noteq> 0" using cpi by simp
  show ?thesis
    unfolding retrieve_step_def
    by (simp only: prod.case ar and_then_Inr diff nz if_False rep col sc)
qed

lemma retrieve_loop:
  fixes b :: "int list"
  assumes pos: "\<forall>x\<in>set b. 0 < x"
  shows "\<exists>s. for_each (retrieve_step (cumprod b) (prod_list b)) [0..<length b]
               (replicate (nat (prod_list b)) (replicate (length b) 0), 0) = Inr s
           \<and> length (fst s) = nat (prod_list b)
           \<and> (\<forall>r<nat (prod_list b). length (fst s ! r) = length b
                \<and> (\<forall>j<length b. fst s ! r ! j
                      = sum_list (take j (cumprod b))
                        + int (r div nat (prod_list b div cumprod b ! j))))"
proof -
  let ?cp = "cumprod b"
  let ?P = "nat (prod_list b)"
  let ?L = "length b"
  let ?e = "\<lambda>j r. sum_list (take j ?cp) + int (r div nat (prod_list b div ?cp ! j))"
  let ?Inv = "\<lambda>i (s :: int list list \<times> int). snd s = sum_list (take i ?cp) \<and> length (fst s) = ?P
                \<and> (\<forall>r<?P. length (fst s ! r) = ?L \<and> (\<forall>j<i. fst s ! r ! j = ?e j r))"
  have init: "?Inv 0 (replicate ?P (replicate ?L 0), 0)" by simp
  have step: "\<exists>s'. retrieve_step ?cp (prod_list b) i s = Inr s' \<and> ?Inv (Suc i) s'"
    if i: "i < ?L" and inv: "?Inv i s" for i s
  proof -
    obtain ri prev where s: "s = (ri, prev)" by (cases s)
    have prev: "prev = sum_list (take i ?cp)" and len: "length ri = ?P"
      and rows: "\<And>r. r < ?P \<Longrightarrow> length (ri ! r) = ?L"
      and old: "\<And>r j. r < ?P \<Longrightarrow> j < i \<Longrightarrow> ri ! r ! j = ?e j r"
      using inv s by simp_all
    let ?k = "nat (prod_list b div ?cp ! i)"
    let ?xs = "map (\<lambda>k. prev + int k) [0..<nat (?cp ! i)]"
    let ?col = "concat (map (replicate ?k) ?xs)"
    let ?ri = "map2 (\<lambda>row v. row[i := v]) ri ?col"
    have run: "retrieve_step ?cp (prod_list b) i s = Inr (?ri, sum_list (take (Suc i) ?cp))"
      unfolding s by (rule retrieve_step_ok [OF pos i prev len])
    have cpi: "0 < ?cp ! i" by (rule cumprod_pos [OF pos i])
    have P: "0 < prod_list b" using pos by (rule prod_list_pos)
    have lx: "length ?xs = nat (?cp ! i)" by simp
    have "length ?col = nat (?cp ! i) * ?k" using lx by (simp only: concat_replicate_length)
    also have "\<dots> = ?P" using cpi cumprod_dvd [OF i] P by (intro nat_mult_div) simp_all
    finally have cl: "length ?col = ?P" .
    have lri: "length ?ri = ?P" using len cl by simp
    have row: "?ri ! r = (ri ! r)[i := ?col ! r]" if "r < ?P" for r
      using that len cl by simp
    have colr: "?col ! r = sum_list (take i ?cp) + int (r div ?k)" if r: "r < ?P" for r
    proof -
      have lt: "r < length ?xs * ?k" using r cl lx by (simp only: concat_replicate_length)
      then have "?col ! r = ?xs ! (r div ?k)" by (rule concat_replicate_nth)
      moreover have "r div ?k < nat (?cp ! i)"
        using lt lx by (simp add: less_mult_imp_div_less)
      ultimately show ?thesis using prev by simp
    qed
    have new: "length (?ri ! r) = ?L \<and> (\<forall>j<Suc i. ?ri ! r ! j = ?e j r)" if r: "r < ?P" for r
    proof (intro conjI allI impI)
      show "length (?ri ! r) = ?L" using row [OF r] rows [OF r] by simp
    next
      fix j assume j: "j < Suc i"
      show "?ri ! r ! j = ?e j r"
      proof (cases "j = i")
        case True
        have "i < length (ri ! r)" using rows [OF r] i by simp
        then have "?ri ! r ! i = ?col ! r" using row [OF r] by simp
        then show ?thesis using True colr [OF r] by simp
      next
        case False
        then have ji: "j < i" using j by simp
        have "?ri ! r ! j = ri ! r ! j" using row [OF r] False by simp
        then show ?thesis using old [OF r ji] by simp
      qed
    qed
    have "?Inv (Suc i) (?ri, sum_list (take (Suc i) ?cp))"
      using lri new by simp
    then show ?thesis using run by blast
  qed
  have "\<exists>s'. for_each (retrieve_step ?cp (prod_list b)) [0..<?L]
          (replicate ?P (replicate ?L 0), 0) = Inr s' \<and> ?Inv ?L s'"
    using init step by (rule for_each_invariant)
  then show ?thesis by blast
qed

lemma sum_take_le:
  "\<forall>x\<in>set b. 0 < x \<Longrightarrow> sum_list (take k b) \<le> sum_list b" for b :: "int list"
proof -
  assume pos: "\<forall>x\<in>set b. 0 < x"
  have "\<forall>x\<in>set (drop k b). 0 \<le> x" using pos by (meson in_set_dropD less_imp_le)
  then have "0 \<le> sum_list (drop k b)" by (simp add: sum_list_nonneg)
  moreover have "sum_list b = sum_list (take k b) + sum_list (drop k b)"
    by (metis append_take_drop_id sum_list.append)
  ultimately show ?thesis by simp
qed

lemma sum_take_nonneg:
  "\<forall>x\<in>set b. 0 < x \<Longrightarrow> 0 \<le> sum_list (take k b)" for b :: "int list"
proof -
  assume pos: "\<forall>x\<in>set b. 0 < x"
  have "\<forall>x\<in>set (take k b). 0 \<le> x" using pos by (meson in_set_takeD less_imp_le)
  then show ?thesis by (simp add: sum_list_nonneg)
qed

lemma length_concat_replicate: "length (concat (replicate n xs)) = n * length xs"
  by (induction n) simp_all

lemma tree_indices_loop:
  fixes b :: "int list"
  assumes pos: "\<forall>x\<in>set b. 0 < x" and mi: "length mi = nat (sum_list b)"
  shows "\<exists>s. for_each (tree_indices_step (cumsum b) (cumprod b) mi) [0..<length b] ([], 0, 1) = Inr s
           \<and> length (fst s) = nat (sum_list (cumprod b))"
proof -
  let ?cp = "cumprod b"
  let ?Inv = "\<lambda>i (s :: int list \<times> int \<times> int). length (fst s) = nat (sum_list (take i ?cp))
                \<and> fst (snd s) = sum_list (take i b) \<and> snd (snd s) = prod_list (take i b)"
  have init: "?Inv 0 ([], 0, 1)" by simp
  have step: "\<exists>s'. tree_indices_step (cumsum b) ?cp mi i s = Inr s' \<and> ?Inv (Suc i) s'"
    if i: "i < length b" and inv: "?Inv i s" for i s
  proof -
    obtain ti pcs pcp where s: "s = (ti, pcs, pcp)" by (cases s)
    have lt: "length ti = nat (sum_list (take i ?cp))" and pcs: "pcs = sum_list (take i b)"
      and pcp: "pcp = prod_list (take i b)"
      using inv s by simp_all
    have csi: "cumsum b ! i = pcs + b ! i" using i pcs by (simp add: cumsum_nth sum_take_Suc)
    have bi: "0 < b ! i" using pos i by simp
    have lo: "0 \<le> pcs" using pcs sum_take_nonneg [OF pos] by simp
    have "pcs + b ! i = sum_list (take (Suc i) b)" using i pcs by (simp add: sum_take_Suc)
    then have hi: "pcs + b ! i \<le> int (length mi)"
      using sum_take_le [OF pos, of "Suc i"] mi sum_take_nonneg [OF pos, of "length b"] by simp
    have "length (py_slice mi pcs (pcs + b ! i)) = nat (pcs + b ! i - pcs)"
      using lo hi bi by (intro py_slice_length) simp_all
    then have sl: "length (py_slice mi pcs (pcs + b ! i)) = nat (b ! i)" by simp
    have pp: "0 < pcp" using pcp prod_take_pos [OF pos] by simp
    have rep: "repeat pcp (py_slice mi pcs (pcs + b ! i))
                 = Inr (replicate (nat pcp) (py_slice mi pcs (pcs + b ! i)))"
      using pp by (intro repeat_ok) simp
    let ?ti = "ti @ concat (replicate (nat pcp) (py_slice mi pcs (pcs + b ! i)))"
    have run: "tree_indices_step (cumsum b) ?cp mi i s = Inr (?ti, cumsum b ! i, ?cp ! i)"
      unfolding s tree_indices_step_def by (simp only: prod.case csi rep and_then_Inr)
    have cpi: "?cp ! i = pcp * b ! i" using i pcp by (simp add: cumprod_step)
    have "length ?ti = nat (sum_list (take i ?cp)) + nat pcp * nat (b ! i)"
      using lt sl by (simp add: length_concat_replicate)
    also have "nat pcp * nat (b ! i) = nat (?cp ! i)"
      using cpi pp bi by (simp add: nat_mult_distrib)
    also have "nat (sum_list (take i ?cp)) + nat (?cp ! i) = nat (sum_list (take (Suc i) ?cp))"
      using level_nonneg [OF pos, of i] cumprod_pos [OF pos i] i
      by (simp add: level_step nat_add_distrib)
    finally have l': "length ?ti = nat (sum_list (take (Suc i) ?cp))" .
    have "cumsum b ! i = sum_list (take (Suc i) b)" using i by (simp add: cumsum_nth)
    moreover have "?cp ! i = prod_list (take (Suc i) b)" using i by (simp add: cumprod_nth)
    ultimately have "?Inv (Suc i) (?ti, cumsum b ! i, ?cp ! i)" using l' by simp
    then show ?thesis using run by blast
  qed
  have "\<exists>s'. for_each (tree_indices_step (cumsum b) ?cp mi) [0..<length b] ([], 0, 1) = Inr s'
          \<and> ?Inv (length b) s'"
    using init step by (rule for_each_invariant)
  then show ?thesis by auto
qed

lemma position_ids_levels:
  fixes b :: "int list"
  assumes pos: "\<forall>x\<in>set b. 0 < x" and n: "n \<le> length b"
  shows "length (concat (map (\<lambda>i. replicate (nat (cumprod b ! i)) i) [0..<n]))
           = nat (sum_list (take n (cumprod b)))"
    and "\<And>d r. d < n \<Longrightarrow> nat (sum_list (take d (cumprod b))) \<le> r
           \<Longrightarrow> r < nat (sum_list (take (Suc d) (cumprod b)))
           \<Longrightarrow> concat (map (\<lambda>i. replicate (nat (cumprod b ! i)) i) [0..<n]) ! r = d"
proof -
  let ?cp = "cumprod b"
  let ?ids = "\<lambda>n. concat (map (\<lambda>i. replicate (nat (?cp ! i)) i) [0..<n])"
  let ?ls = "\<lambda>d. nat (sum_list (take d ?cp))"
  have both: "length (?ids n) = ?ls n
      \<and> (\<forall>d r. d < n \<longrightarrow> ?ls d \<le> r \<longrightarrow> r < ?ls (Suc d) \<longrightarrow> ?ids n ! r = d)"
    using n
  proof (induction n)
    case 0
    show ?case by simp
  next
    case (Suc n)
    then have n: "n < length b" and IH: "length (?ids n) = ?ls n"
      "\<And>d r. d < n \<Longrightarrow> ?ls d \<le> r \<Longrightarrow> r < ?ls (Suc d) \<Longrightarrow> ?ids n ! r = d"
      by simp_all
    have app: "?ids (Suc n) = ?ids n @ replicate (nat (?cp ! n)) n" by simp
    have stp: "?ls (Suc n) = ?ls n + nat (?cp ! n)"
      using level_nonneg [OF pos, of n] cumprod_pos [OF pos n] n
      by (simp add: level_step nat_add_distrib)
    have mono: "\<And>d. d < n \<Longrightarrow> ?ls (Suc d) \<le> ?ls n"
    proof -
      fix d assume "d < n"
      then have "Suc d \<le> n" by simp
      then show "?ls (Suc d) \<le> ?ls n"
      proof (induction n)
        case 0 then show ?case by simp
      next
        case (Suc m)
        show ?case
        proof (cases "Suc d = Suc m")
          case True then show ?thesis by simp
        next
          case False
          then have "Suc d \<le> m" using Suc.prems by simp
          then have "?ls (Suc d) \<le> ?ls m" by (rule Suc.IH)
          moreover have "?ls m \<le> ?ls (Suc m)"
          proof (cases "m < length b")
            case True
            then show ?thesis using cumprod_pos [OF pos True] by (simp add: level_step)
          next
            case False then show ?thesis by simp
          qed
          ultimately show ?thesis by simp
        qed
      qed
    qed
    have len: "length (?ids (Suc n)) = ?ls (Suc n)" using IH(1) stp by (simp only: app) simp
    have nth: "?ids (Suc n) ! r = d" if d: "d < Suc n" and lo: "?ls d \<le> r" and hi: "r < ?ls (Suc d)"
      for d r
    proof (cases "d = n")
      case True
      then have "r - ?ls n < nat (?cp ! n)" using hi lo stp by simp
      moreover have "\<not> r < length (?ids n)" using lo True IH(1) by simp
      ultimately show ?thesis using True IH(1) by (simp only: app nth_append) simp
    next
      case False
      then have dn: "d < n" using d by simp
      have "r < ?ls n" using hi mono [OF dn] by simp
      then have "r < length (?ids n)" using IH(1) by simp
      then have "?ids (Suc n) ! r = ?ids n ! r" by (simp only: app nth_append) simp
      then show ?thesis using IH(2) [OF dn lo hi] by simp
    qed
    show ?case using len nth by blast
  qed
  show "length (?ids n) = ?ls n" using both by blast
  show "\<And>d r. d < n \<Longrightarrow> ?ls d \<le> r \<Longrightarrow> r < ?ls (Suc d) \<Longrightarrow> ?ids n ! r = d"
    using both by blast
qed

lemma cumprod_le_prod:
  fixes b :: "int list"
  assumes pos: "\<forall>x\<in>set b. 0 < x" and i: "i < length b"
  shows "cumprod b ! i \<le> prod_list b"
proof -
  have "0 < cumprod b ! i" by (rule cumprod_pos [OF pos i])
  moreover have "cumprod b ! i dvd prod_list b" by (rule cumprod_dvd [OF i])
  moreover have "0 < prod_list b" using pos by (rule prod_list_pos)
  ultimately show ?thesis by (simp add: zdvd_imp_le)
qed

lemma cumprod_Max:
  fixes b :: "int list"
  assumes pos: "\<forall>x\<in>set b. 0 < x" and ne: "b \<noteq> []"
  shows "Max (set (cumprod b)) = prod_list b"
proof (rule Max_eqI)
  show "finite (set (cumprod b))" by simp
next
  fix y assume "y \<in> set (cumprod b)"
  then obtain i where "i < length (cumprod b)" "cumprod b ! i = y"
    unfolding in_set_conv_nth by blast
  then show "y \<le> prod_list b" using cumprod_le_prod [OF pos, of i] by simp
next
  have l: "length b - 1 < length b" using ne by simp
  then have "cumprod b ! (length b - 1) = prod_list (take (Suc (length b - 1)) b)"
    by (rule cumprod_nth)
  then have "cumprod b ! (length b - 1) = prod_list b" using ne by simp
  moreover have "cumprod b ! (length b - 1) \<in> set (cumprod b)" using l by simp
  ultimately show "prod_list b \<in> set (cumprod b)" by simp
qed

lemma list_indices_step_ok:
  fixes b :: "int list"
  assumes pos: "\<forall>x\<in>set b. 0 < x" and i: "i < length b"
  shows "\<exists>block. list_indices_step b (cumprod b) (prod_list b) i (blocks, prev)
            = Inr (blocks @ [(block, nat (b ! i))], prev + cumprod b ! i)
          \<and> length block = nat (prod_list b)"
proof -
  let ?q = "prod_list (take i b)"
  let ?cur = "map (\<lambda>k. prev + int k) [0..<nat (b ! i)]"
  let ?offs = "map (\<lambda>k. 0 + int k) [0..<nat ?q]"
  let ?rows = "map2 (\<lambda>row off. map (\<lambda>v. v + off * int (length ?cur)) row)
                 (replicate (nat ?q) ?cur) ?offs"
  let ?block = "concat (replicate (nat (prod_list b div ?q)) ?rows)"
  have bi: "0 < b ! i" using pos i by simp
  have q: "0 < ?q" by (rule prod_take_pos [OF pos])
  have div: "cumprod b ! i div b ! i = ?q" using bi i by (simp add: cumprod_step)
  have ar: "arange prev (prev + b ! i) = Inr ?cur"
    using arange_ok [of prev "prev + b ! i"] bi by simp
  have nz: "b ! i \<noteq> 0" using bi by simp
  have rep: "repeat ?q ?cur = Inr (replicate (nat ?q) ?cur)" using q by (intro repeat_ok) simp
  have ar2: "arange 0 ?q = Inr ?offs" using arange_ok [of 0 ?q] q by simp
  have qnz: "?q \<noteq> 0" using q by simp
  have P: "0 < prod_list b" using pos by (rule prod_list_pos)
  have m: "0 \<le> prod_list b div ?q" using q P by (simp add: pos_imp_zdiv_nonneg_iff)
  have tl: "tile (prod_list b div ?q) ?rows = Inr ?block" using m by (rule tile_ok)
  have run: "list_indices_step b (cumprod b) (prod_list b) i (blocks, prev)
               = Inr (blocks @ [(?block, length ?cur)], prev + cumprod b ! i)"
    unfolding list_indices_step_def
    by (simp only: prod.case ar and_then_Inr nz if_False div rep ar2 qnz tl)
  have "length ?rows = nat ?q" by simp
  then have "length ?block = nat (prod_list b div ?q) * nat ?q"
    by (simp only: length_concat_replicate)
  also have "\<dots> = nat (prod_list b)"
    using nat_mult_div [OF q prod_take_dvd [of i b]] P by (simp add: mult.commute)
  finally have "length ?block = nat (prod_list b)" .
  moreover have "length ?cur = nat (b ! i)" by simp
  ultimately show ?thesis using run by simp
qed

lemma list_indices_loop:
  fixes b :: "int list"
  assumes pos: "\<forall>x\<in>set b. 0 < x"
  shows "\<exists>s. for_each (list_indices_step b (cumprod b) (prod_list b)) [0..<length b] ([], 0) = Inr s
           \<and> (\<forall>blk\<in>set (fst s). length (fst blk) = nat (prod_list b))"
proof -
  let ?Inv = "\<lambda>(i :: nat) (s :: (int list list \<times> nat) list \<times> int).
                \<forall>blk\<in>set (fst s). length (fst blk) = nat (prod_list b)"
  have init: "?Inv 0 ([], 0)" by simp
  have step: "\<exists>s'. list_indices_step b (cumprod b) (prod_list b) i s = Inr s' \<and> ?Inv (Suc i) s'"
    if i: "i < length b" and inv: "?Inv i s" for i s
  proof -
    obtain blocks prev where s: "s = (blocks, prev)" by (cases s)
    obtain block where run: "list_indices_step b (cumprod b) (prod_list b) i (blocks, prev)
            = Inr (blocks @ [(block, nat (b ! i))], prev + cumprod b ! i)"
      and len: "length block = nat (prod_list b)"
      using list_indices_step_ok [OF pos i] by blast
    have "?Inv (Suc i) (blocks @ [(block, nat (b ! i))], prev + cumprod b ! i)"
      using inv s len by auto
    then show ?thesis using run s by blast
  qed
  show ?thesis using init step by (rule for_each_invariant)
qed

lemma cat_columns_ok:
  "\<forall>blk\<in>set blocks. length (fst blk) = n \<Longrightarrow> \<exists>cols. cat_columns blocks = Inr cols"
proof -
  assume a: "\<forall>blk\<in>set blocks. length (fst blk) = n"
  have "\<not> (\<exists>blk\<in>set blocks. length (fst blk) \<noteq> length (fst (hd blocks)))"
  proof (cases blocks)
    case Nil then show ?thesis by simp
  next
    case (Cons x xs)
    then have "length (fst (hd blocks)) = n" using a by simp
    then show ?thesis using a by simp
  qed
  then show ?thesis by (simp add: cat_columns_def)
qed

lemma level_start_int:
  "\<forall>x\<in>set b. 0 < x \<Longrightarrow> int (level_start b d) = sum_list (take d (cumprod b))"
  by (simp add: level_start_def level_nonneg)

lemma level_start_step:
  "\<forall>x\<in>set b. 0 < x \<Longrightarrow> d < length b \<Longrightarrow>
     level_start b (Suc d) = level_start b d + nat (cumprod b ! d)"
  using level_nonneg [of b d] cumprod_pos [of b d]
  by (simp add: level_start_def level_step nat_add_distrib)

lemma level_start_mono:
  assumes pos: "\<forall>x\<in>set b. 0 < x" and "d \<le> e"
  shows "level_start b d \<le> level_start b e"
  using assms(2)
proof (induction e)
  case 0
  then show ?case by simp
next
  case (Suc e)
  have s: "level_start b e \<le> level_start b (Suc e)"
  proof (cases "e < length b")
    case True then show ?thesis using level_start_step [OF pos True] by simp
  next
    case False then show ?thesis by (simp add: level_start_def)
  qed
  show ?case
  proof (cases "d = Suc e")
    case True then show ?thesis by simp
  next
    case False
    then have "d \<le> e" using Suc.prems by simp
    then show ?thesis using Suc.IH s by simp
  qed
qed

lemma level_start_total: "level_start b (length b) = nat (sum_list (cumprod b))"
  by (simp add: level_start_def)

lemma level_start_0 [simp]: "level_start b 0 = 0"
  by (simp add: level_start_def)

lemma cumprod_Suc_nat:
  fixes b :: "int list"
  assumes pos: "\<forall>x\<in>set b. 0 < x" and i: "Suc i < length b"
  shows "nat (cumprod b ! Suc i) = nat (cumprod b ! i) * nat (b ! Suc i)"
proof -
  have "cumprod b ! Suc i = prod_list (take (Suc i) b) * b ! Suc i" using i by (rule cumprod_step)
  also have "prod_list (take (Suc i) b) = cumprod b ! i" using i by (simp add: cumprod_nth)
  finally have "cumprod b ! Suc i = cumprod b ! i * b ! Suc i" .
  moreover have "0 < cumprod b ! i" using pos i by (intro cumprod_pos) simp_all
  ultimately show ?thesis by (simp add: nat_mult_distrib)
qed

lemma parent_in_level:
  fixes b :: "int list"
  assumes pos: "\<forall>x\<in>set b. 0 < x" and d: "Suc d < length b"
    and lo: "level_start b (Suc d) \<le> r" and hi: "r < level_start b (Suc (Suc d))"
  shows "level_start b d \<le> parent b (Suc d) r" and "parent b (Suc d) r < level_start b (Suc d)"
proof -
  let ?j = "r - level_start b (Suc d)"
  have "level_start b (Suc (Suc d)) = level_start b (Suc d) + nat (cumprod b ! Suc d)"
    using pos d by (rule level_start_step)
  then have "?j < nat (cumprod b ! Suc d)" using lo hi by simp
  then have "?j < nat (cumprod b ! d) * nat (b ! Suc d)" using cumprod_Suc_nat [OF pos d] by simp
  then have q: "?j div nat (b ! Suc d) < nat (cumprod b ! d)"
    by (simp add: less_mult_imp_div_less)
  have st: "level_start b (Suc d) = level_start b d + nat (cumprod b ! d)"
    using pos d by (intro level_start_step) simp_all
  show "level_start b d \<le> parent b (Suc d) r" by (simp add: parent_def)
  show "parent b (Suc d) r < level_start b (Suc d)" using q st by (simp add: parent_def)
qed

lemma add_rows_ok:
  assumes "start \<le> stop" and "stop \<le> length m" and "length rows = stop - start"
  shows "add_rows m (int start) (int stop) rows
           = Inr (take start m @ map2 (map2 (+)) (take (stop - start) (drop start m)) rows
                  @ drop stop m)"
proof -
  have a: "slice_bound (length m) (int start) = start" using assms by (simp add: slice_bound_def)
  have b: "slice_bound (length m) (int stop) = stop" using assms by (simp add: slice_bound_def)
  have c: "max start stop = stop" using assms(1) by simp
  show ?thesis unfolding add_rows_def Let_def a b c using assms(3) by simp
qed

lemma attn_mask_step_ok:
  fixes b :: "int list"
  assumes pos: "\<forall>x\<in>set b. 0 < x" and i: "Suc i < length b"
    and len: "length m = nat (sum_list (cumprod b))"
  shows "attn_mask_step b (cumprod b) (Suc i) (m, int (level_start b i))
     = Inr (take (level_start b (Suc i)) m
            @ map2 (map2 (+)) (take (nat (cumprod b ! Suc i)) (drop (level_start b (Suc i)) m))
                (map (\<lambda>j. m ! (level_start b i + j div nat (b ! Suc i)))
                   [0..<nat (cumprod b ! Suc i)])
            @ drop (level_start b (Suc (Suc i))) m,
            int (level_start b (Suc i)))"
proof -
  let ?cp = "cumprod b"
  let ?ls = "level_start b"
  let ?kb = "nat (b ! Suc i)"
  let ?xs = "map (\<lambda>k. int (?ls i) + int k) [0..<nat (?cp ! i)]"
  let ?pidx = "concat (map (replicate ?kb) ?xs)"
  let ?rows = "map (\<lambda>j. m ! (?ls i + j div ?kb)) [0..<nat (?cp ! Suc i)]"
  have i': "i < length b" using i by simp
  have cs: "sum_list (take (Suc i) ?cp) = int (?ls (Suc i))"
    using level_start_int [OF pos] by simp
  have st: "?ls (Suc i) = ?ls i + nat (?cp ! i)" by (rule level_start_step [OF pos i'])
  have st2: "?ls (Suc (Suc i)) = ?ls (Suc i) + nat (?cp ! Suc i)"
    by (rule level_start_step [OF pos i])
  have total: "?ls (Suc (Suc i)) \<le> length m"
    using level_start_mono [OF pos, of "Suc (Suc i)" "length b"] i len
    by (simp add: level_start_total)
  have ne: "int (?ls i) \<noteq> - 1" by simp
  have ar: "arange (int (?ls i)) (int (?ls (Suc i))) = Inr ?xs"
    using arange_ok [of "int (?ls i)" "int (?ls (Suc i))"] st by simp
  have bi: "0 < b ! Suc i" using pos i by simp
  have rep: "repeat (b ! Suc i) ?xs = Inr (replicate ?kb ?xs)" using bi by (intro repeat_ok) simp
  have tr: "concat (transpose (replicate ?kb ?xs)) = ?pidx" by (rule transpose_replicate)
  have lx: "length ?xs = nat (?cp ! i)" by simp
  have "length ?pidx = nat (?cp ! i) * ?kb" using lx by (simp only: concat_replicate_length)
  then have lp: "length ?pidx = nat (?cp ! Suc i)" using cumprod_Suc_nat [OF pos i] by simp
  have pnth: "?pidx ! j = int (?ls i) + int (j div ?kb)" if j: "j < nat (?cp ! Suc i)" for j
  proof -
    have lt: "j < length ?xs * ?kb" using j cumprod_Suc_nat [OF pos i] lx by simp
    then have "?pidx ! j = ?xs ! (j div ?kb)" by (rule concat_replicate_nth)
    moreover have "j div ?kb < nat (?cp ! i)" using lt lx by (simp add: less_mult_imp_div_less)
    ultimately show ?thesis by simp
  qed
  have inr: "\<forall>x\<in>set ?pidx. 0 \<le> x \<and> x < int (length m)"
  proof
    fix x assume "x \<in> set ?pidx"
    then obtain j where j: "j < length ?pidx" "?pidx ! j = x" unfolding in_set_conv_nth by blast
    have jj: "j < nat (?cp ! Suc i)" using j(1) lp by simp
    have lt: "j < length ?xs * ?kb" using jj cumprod_Suc_nat [OF pos i] lx by simp
    have "j div ?kb < nat (?cp ! i)" using lt lx by (simp add: less_mult_imp_div_less)
    then have "?ls i + j div ?kb < ?ls (Suc i)" using st by simp
    moreover have "?ls (Suc i) \<le> length m" using st2 total by simp
    ultimately have "?ls i + j div ?kb < length m" by simp
    then show "0 \<le> x \<and> x < int (length m)" using pnth [OF jj] j(2) by simp
  qed
  have "map (\<lambda>x. m ! nat x) ?pidx = ?rows"
  proof (rule nth_equalityI)
    show "length (map (\<lambda>x. m ! nat x) ?pidx) = length ?rows" using lp by simp
  next
    fix j assume "j < length (map (\<lambda>x. m ! nat x) ?pidx)"
    then have j: "j < nat (?cp ! Suc i)" using lp by simp
    have "map (\<lambda>x. m ! nat x) ?pidx ! j = m ! nat (?pidx ! j)" using j lp by simp
    also have "\<dots> = m ! (?ls i + j div ?kb)" using pnth [OF j] by (simp add: nat_add_distrib)
    finally show "map (\<lambda>x. m ! nat x) ?pidx ! j = ?rows ! j" using j by simp
  qed
  then have sel: "index_select m ?pidx = Inr ?rows" using index_select_ok [OF inr] by simp
  have hi: "int (?ls (Suc i)) + int (length ?pidx) = int (?ls (Suc (Suc i)))"
    using lp st2 by simp
  have "add_rows m (int (?ls (Suc i))) (int (?ls (Suc (Suc i)))) ?rows
          = Inr (take (?ls (Suc i)) m
                 @ map2 (map2 (+)) (take (?ls (Suc (Suc i)) - ?ls (Suc i)) (drop (?ls (Suc i)) m)) ?rows
                 @ drop (?ls (Suc (Suc i))) m)"
    using st2 total by (intro add_rows_ok) simp_all
  then have add: "add_rows m (int (?ls (Suc i))) (int (?ls (Suc (Suc i)))) ?rows
          = Inr (take (?ls (Suc i)) m
                 @ map2 (map2 (+)) (take (nat (?cp ! Suc i)) (drop (?ls (Suc i)) m)) ?rows
                 @ drop (?ls (Suc (Suc i))) m)"
    using st2 by simp
  show ?thesis
    unfolding attn_mask_step_def
    by (simp only: prod.case ne if_True not_False_eq_True cs ar and_then_Inr rep tr sel hi add)
qed

lemma splice_length:
  assumes "start \<le> stop" and "stop \<le> length m" and "length mid = stop - start"
  shows "length (take start m @ mid @ drop stop m) = length m"
  using assms by simp

lemma splice_nth:
  assumes "start \<le> stop" and "stop \<le> length m" and "length mid = stop - start"
    and "r < length m"
  shows "(take start m @ mid @ drop stop m) ! r
           = (if r < start then m ! r else if r < stop then mid ! (r - start) else m ! r)"
proof -
  have lt: "length (take start m) = start" using assms by simp
  show ?thesis
  proof (cases "r < start")
    case True
    then show ?thesis using lt by (simp add: nth_append)
  next
    case False
    show ?thesis
    proof (cases "r < stop")
      case True
      then have "r - start < length mid" using assms False by simp
      then show ?thesis using lt False True by (simp add: nth_append)
    next
      case F2: False
      have "\<not> r - start < length mid" using assms F2 False by simp
      moreover have "stop + (r - start - length mid) = r" using assms F2 False by simp
      ultimately show ?thesis using lt False F2 assms by (simp add: nth_append)
    qed
  qed
qed

lemma eye_eq: "0 \<le> n \<Longrightarrow> eye n = Inr (map (eye_row (nat n)) [0..<nat n])"
  by (simp add: eye_def eye_row_def)

lemma attn_mask_loop:
  fixes b :: "int list"
  assumes pos: "\<forall>x\<in>set b. 0 < x" and n: "n = nat (sum_list (cumprod b))"
  shows "\<exists>s. for_each (attn_mask_step b (cumprod b)) [0..<length b]
               (map (eye_row n) [0..<n], - 1) = Inr s
           \<and> length (fst s) = n
           \<and> (\<forall>d<length b. \<forall>r. level_start b d \<le> r \<longrightarrow> r < level_start b (Suc d)
                 \<longrightarrow> fst s ! r = chain_row b n d r)"
proof -
  let ?cp = "cumprod b"
  let ?ls = "level_start b"
  let ?L = "length b"
  let ?Inv = "\<lambda>i (s :: nat list list \<times> int).
      snd s = (if i = 0 then - 1 else int (?ls (i - 1))) \<and> length (fst s) = n
      \<and> (\<forall>d<?L. \<forall>r. ?ls d \<le> r \<longrightarrow> r < ?ls (Suc d)
            \<longrightarrow> fst s ! r = (if d < i then chain_row b n d r else eye_row n r))"
  have top: "?ls (Suc d) \<le> n" if "d < ?L" for d
    using level_start_mono [OF pos, of "Suc d" ?L] that n by (simp add: level_start_total)
  have init: "?Inv 0 (map (eye_row n) [0..<n], - 1)"
  proof (intro conjI allI impI)
    fix d r assume "d < ?L" and "r < ?ls (Suc d)"
    then have "r < n" using top [of d] by simp
    then show "fst (map (eye_row n) [0..<n], - 1 :: int) ! r
                 = (if d < 0 then chain_row b n d r else eye_row n r)"
      by simp
  qed simp_all
  have step: "\<exists>s'. attn_mask_step b ?cp i s = Inr s' \<and> ?Inv (Suc i) s'"
    if i: "i < ?L" and inv: "?Inv i s" for i s
  proof -
    obtain m prev where s: "s = (m, prev)" by (cases s)
    have prev: "prev = (if i = 0 then - 1 else int (?ls (i - 1)))" and len: "length m = n"
      and rows: "\<And>d r. d < ?L \<Longrightarrow> ?ls d \<le> r \<Longrightarrow> r < ?ls (Suc d)
                  \<Longrightarrow> m ! r = (if d < i then chain_row b n d r else eye_row n r)"
      using inv s by simp_all
    show ?thesis
    proof (cases i)
      case 0
      have run: "attn_mask_step b ?cp i s = Inr (m, 0)"
        unfolding s attn_mask_step_def using prev 0 by simp
      have "?Inv (Suc i) (m, 0)"
      proof (intro conjI allI impI)
        fix d r assume d: "d < ?L" and lo: "?ls d \<le> r" and hi: "r < ?ls (Suc d)"
        have "m ! r = eye_row n r" using rows [OF d lo hi] 0 by simp
        then show "fst (m, 0 :: int) ! r = (if d < Suc i then chain_row b n d r else eye_row n r)"
          using 0 by (cases d) simp_all
      qed (use 0 len in simp_all)
      then show ?thesis using run by blast
    next
      case (Suc k)
      have k: "Suc k < ?L" using i Suc by simp
      have pk: "prev = int (?ls k)" using prev Suc by simp
      let ?start = "?ls (Suc k)"
      let ?stop = "?ls (Suc (Suc k))"
      let ?c = "nat (?cp ! Suc k)"
      let ?par = "map (\<lambda>j. m ! (?ls k + j div nat (b ! Suc k))) [0..<?c]"
      let ?mid = "map2 (map2 (+)) (take ?c (drop ?start m)) ?par"
      let ?m = "take ?start m @ ?mid @ drop ?stop m"
      have run: "attn_mask_step b ?cp i s = Inr (?m, int ?start)"
        unfolding s pk Suc using len n by (intro attn_mask_step_ok [OF pos k]) simp
      have st: "?stop = ?start + ?c" by (rule level_start_step [OF pos k])
      have le: "?start \<le> ?stop" using st by simp
      have tp: "?stop \<le> length m" using top [OF k] len by simp
      have lmid: "length ?mid = ?stop - ?start" using st tp by simp
      have lm: "length ?m = n" using splice_length [OF le tp lmid] len by simp
      have "?Inv (Suc i) (?m, int ?start)"
      proof (intro conjI allI impI)
        show "snd (?m, int ?start) = (if Suc i = 0 then - 1 else int (?ls (Suc i - 1)))"
          using Suc by simp
        show "length (fst (?m, int ?start)) = n" using lm by simp
      next
        fix d r assume d: "d < ?L" and lo: "?ls d \<le> r" and hi: "r < ?ls (Suc d)"
        have rn: "r < length m" using hi top [OF d] len by simp
        have nth: "?m ! r = (if r < ?start then m ! r
                             else if r < ?stop then ?mid ! (r - ?start) else m ! r)"
          by (rule splice_nth [OF le tp lmid rn])
        have old: "m ! r = (if d < i then chain_row b n d r else eye_row n r)"
          by (rule rows [OF d lo hi])
        have "?m ! r = (if d < Suc i then chain_row b n d r else eye_row n r)"
        proof (cases "d < Suc k")
          case True
          then have "Suc d \<le> Suc k" by simp
          then have "?ls (Suc d) \<le> ?start" by (rule level_start_mono [OF pos])
          then have "r < ?start" using hi by simp
          then show ?thesis using nth old True Suc by simp
        next
          case False
          show ?thesis
          proof (cases "d = Suc k")
            case True
            have r1: "?start \<le> r" using lo True by simp
            have r2: "r < ?stop" using hi True by simp
            have j: "r - ?start < ?c" using r1 r2 st by simp
            have mr: "m ! r = eye_row n r" using old True Suc by simp
            have pin: "?ls k \<le> parent b (Suc k) r" "parent b (Suc k) r < ?ls (Suc k)"
              using parent_in_level [OF pos k r1 r2] by simp_all
            have kL: "k < ?L" using k by simp
            have "m ! parent b (Suc k) r = (if k < i then chain_row b n k (parent b (Suc k) r)
                                            else eye_row n (parent b (Suc k) r))"
              by (rule rows [OF kL pin])
            then have mp: "m ! parent b (Suc k) r = chain_row b n k (parent b (Suc k) r)"
              using Suc by simp
            have pj: "?par ! (r - ?start) = m ! parent b (Suc k) r"
              using j by (simp add: parent_def)
            have dr: "take ?c (drop ?start m) ! (r - ?start) = m ! r"
              using j r1 rn by simp
            have l1: "r - ?start < length (take ?c (drop ?start m))" using j st tp by simp
            have l2: "r - ?start < length ?par" using j by simp
            have "?mid ! (r - ?start) = map2 (+) (m ! r) (m ! parent b (Suc k) r)"
              using l1 l2 dr pj by (simp only: nth_map length_zip min_less_iff_conj nth_zip
                  length_map prod.case) 
            then have "?mid ! (r - ?start) = chain_row b n (Suc k) r" using mr mp by simp
            moreover have "\<not> r < ?start" using r1 by simp
            ultimately show ?thesis using nth r2 True Suc by simp
          next
            case F2: False
            then have dk: "Suc (Suc k) \<le> d" using False by simp
            have "?stop \<le> ?ls d" using dk by (rule level_start_mono [OF pos])
            then have "\<not> r < ?stop" "\<not> r < ?start" using lo le by simp_all
            then show ?thesis using nth old False F2 Suc by simp
          qed
        qed
        then show "fst (?m, int ?start) ! r = (if d < Suc i then chain_row b n d r else eye_row n r)"
          by simp
      qed
      then show ?thesis using run by blast
    qed
  qed
  have "\<exists>s'. for_each (attn_mask_step b ?cp) [0..<?L] (map (eye_row n) [0..<n], - 1) = Inr s'
          \<and> ?Inv ?L s'"
    using init step by (rule for_each_invariant)
  then obtain s' where run: "for_each (attn_mask_step b ?cp) [0..<?L] (map (eye_row n) [0..<n], - 1) = Inr s'"
    and fin: "?Inv ?L s'" by blast
  have "\<forall>d<?L. \<forall>r. ?ls d \<le> r \<longrightarrow> r < ?ls (Suc d) \<longrightarrow> fst s' ! r = chain_row b n d r"
    using fin by simp
  then show ?thesis using run fin by blast
qed

lemma zeros_ok: "0 \<le> n \<Longrightarrow> zeros n m = Inr (replicate (nat n) (replicate m 0))"
  by (simp add: zeros_def)

lemma generate_medusa_buffers_positive:
  fixes b :: "int list"
  assumes ne: "b \<noteq> []" and pos: "\<forall>x\<in>set b. 0 < x"
  shows "\<exists>buf. generate_medusa_buffers b = Inr buf
    \<and> length (buf_medusa_attn_mask buf) = nat (sum_list (cumprod b))
    \<and> (\<forall>d<length b. \<forall>r. level_start b d \<le> r \<longrightarrow> r < level_start b (Suc d)
          \<longrightarrow> buf_medusa_attn_mask buf ! r = chain_row b (nat (sum_list (cumprod b))) d r)
    \<and> length (buf_tree_indices buf) = nat (sum_list (cumprod b))
    \<and> buf_medusa_position_ids buf
        = concat (map (\<lambda>i. replicate (nat (cumprod b ! i)) i) [0..<length b])
    \<and> length (buf_retrieve_indices buf) = nat (prod_list b)
    \<and> (\<forall>r<nat (prod_list b). length (buf_retrieve_indices buf ! r) = length b
          \<and> (\<forall>j<length b. buf_retrieve_indices buf ! r ! j
                = sum_list (take j (cumprod b))
                  + int (r div nat (prod_list b div cumprod b ! j))))"
proof -
  let ?cp = "cumprod b"
  let ?N = "nat (sum_list ?cp)"
  let ?L = "length b"
  have Nn: "0 \<le> sum_list ?cp" using level_nonneg [OF pos, of ?L] by simp
  have e: "eye (sum_list ?cp) = Inr (map (eye_row ?N) [0..<?N])" using Nn by (rule eye_eq)
  have sb: "0 \<le> sum_list b" using sum_take_nonneg [OF pos, of ?L] by simp
  let ?mi = "map (\<lambda>k. 0 + int k) [0..<nat (sum_list b - 0)]"
  have a: "arange 0 (last (cumsum b)) = Inr ?mi"
    using arange_ok [of 0 "sum_list b"] sb cumsum_last [OF ne] by simp
  have lmi: "length ?mi = nat (sum_list b)" by simp
  obtain s1 where p1: "for_each (tree_indices_step (cumsum b) ?cp ?mi) [0..<?L] ([], 0, 1) = Inr s1"
    and l1: "length (fst s1) = ?N"
    using tree_indices_loop [OF pos lmi] by blast
  obtain s2 where p2: "for_each (attn_mask_step b ?cp) [0..<?L] (map (eye_row ?N) [0..<?N], - 1) = Inr s2"
    and l2: "length (fst s2) = ?N"
    and r2: "\<forall>d<?L. \<forall>r. level_start b d \<le> r \<longrightarrow> r < level_start b (Suc d)
                \<longrightarrow> fst s2 ! r = chain_row b ?N d r"
    using attn_mask_loop [OF pos refl] by blast
  have P: "0 < prod_list b" using pos by (rule prod_list_pos)
  have z: "zeros (prod_list b) ?L = Inr (replicate (nat (prod_list b)) (replicate ?L 0))"
    using P by (intro zeros_ok) simp
  obtain s4 where p4: "for_each (retrieve_step ?cp (prod_list b)) [0..<?L]
                          (replicate (nat (prod_list b)) (replicate ?L 0), 0) = Inr s4"
    and l4: "length (fst s4) = nat (prod_list b)"
    and r4: "\<forall>r<nat (prod_list b). length (fst s4 ! r) = ?L
               \<and> (\<forall>j<?L. fst s4 ! r ! j
                     = sum_list (take j ?cp) + int (r div nat (prod_list b div ?cp ! j)))"
    using retrieve_loop [OF pos] by blast
  have mx: "Max (set ?cp) = prod_list b" by (rule cumprod_Max [OF pos ne])
  obtain s5 where p5: "for_each (list_indices_step b ?cp (prod_list b)) [0..<?L] ([], 0) = Inr s5"
    and l5: "\<forall>blk\<in>set (fst s5). length (fst blk) = nat (prod_list b)"
    using list_indices_loop [OF pos] by blast
  obtain cols where c: "cat_columns (fst s5) = Inr cols" using cat_columns_ok [OF l5] by blast
  let ?buf = "\<lparr> buf_medusa_attn_mask = fst s2, buf_tree_indices = fst s1,
                 buf_medusa_position_ids = concat (map (\<lambda>i. replicate (nat (?cp ! i)) i) [0..<?L]),
                 buf_retrieve_indices = fst s4, buf_list_indices = cols \<rparr>"
  have run: "generate_medusa_buffers b = Inr ?buf"
    unfolding generate_medusa_buffers_def
    by (simp only: ne if_False e a p1 p2 z p4 mx p5 c and_then_Inr)
  have props: "length (buf_medusa_attn_mask ?buf) = ?N
    \<and> (\<forall>d<?L. \<forall>r. level_start b d \<le> r \<longrightarrow> r < level_start b (Suc d)
          \<longrightarrow> buf_medusa_attn_mask ?buf ! r = chain_row b ?N d r)
    \<and> length (buf_tree_indices ?buf) = ?N
    \<and> buf_medusa_position_ids ?buf = concat (map (\<lambda>i. replicate (nat (?cp ! i)) i) [0..<?L])
    \<and> length (buf_retrieve_indices ?buf) = nat (prod_list b)
    \<and> (\<forall>r<nat (prod_list b). length (buf_retrieve_indices ?buf ! r) = ?L
          \<and> (\<forall>j<?L. buf_retrieve_indices ?buf ! r ! j
                = sum_list (take j ?cp) + int (r div nat (prod_list b div ?cp ! j))))"
    using l2 r2 l1 l4 r4 by simp
  show ?thesis by (rule exI [of _ ?buf]) (rule conjI [OF run props])
qed

lemma eye_row_length [simp]: "length (eye_row n r) = n"
  by (simp add: eye_row_def)

lemma chain_row_length [simp]: "length (chain_row b n d r) = n"
  by (induction d arbitrary: r) simp_all

lemma level_exists:
  assumes pos: "\<forall>x\<in>set b. 0 < x" and "r < level_start b n"
  shows "\<exists>d<n. level_start b d \<le> r \<and> r < level_start b (Suc d)"
  using assms(2)
proof (induction n)
  case 0
  then show ?case by simp
next
  case (Suc n)
  show ?case
  proof (cases "r < level_start b n")
    case True
    then obtain d where "d < n" "level_start b d \<le> r" "r < level_start b (Suc d)"
      using Suc.IH by blast
    then show ?thesis using less_Suc_eq by blast
  next
    case False
    then have "level_start b n \<le> r" by simp
    then show ?thesis using Suc.prems by blast
  qed
qed

lemma ancestor_shift:
  "ancestor b (Suc d) r (Suc k) = ancestor b d (parent b (Suc d) r) k"
  by (induction k) simp_all

lemma ancestor_level:
  fixes b :: "int list"
  assumes pos: "\<forall>x\<in>set b. 0 < x" and d: "d < length b"
    and lo: "level_start b d \<le> r" and hi: "r < level_start b (Suc d)" and k: "k \<le> d"
  shows "level_start b (d - k) \<le> ancestor b d r k
         \<and> ancestor b d r k < level_start b (Suc (d - k))"
  using k
proof (induction k)
  case 0
  show ?case using lo hi by simp
next
  case (Suc k)
  then have IH: "level_start b (d - k) \<le> ancestor b d r k"
    "ancestor b d r k < level_start b (Suc (d - k))" by simp_all
  have e: "d - k = Suc (d - Suc k)" using Suc.prems by simp
  have l: "Suc (d - Suc k) < length b" using d Suc.prems by simp
  have "level_start b (d - Suc k) \<le> parent b (Suc (d - Suc k)) (ancestor b d r k)
        \<and> parent b (Suc (d - Suc k)) (ancestor b d r k) < level_start b (Suc (d - Suc k))"
    using parent_in_level [OF pos l, of "ancestor b d r k"] IH e by simp
  then show ?case using e by simp
qed

lemma eye_row_nth: "j < n \<Longrightarrow> eye_row n r ! j = (if r = j then 1 else 0)"
  by (simp add: eye_row_def)

lemma chain_row_entries:
  fixes b :: "int list"
  assumes pos: "\<forall>x\<in>set b. 0 < x"
  shows "d < length b \<Longrightarrow> level_start b d \<le> r \<Longrightarrow> r < level_start b (Suc d) \<Longrightarrow> j < n
         \<Longrightarrow> chain_row b n d r ! j = (if \<exists>k\<le>d. j = ancestor b d r k then 1 else 0)"
proof (induction d arbitrary: r)
  case 0
  then show ?case by (auto simp: eye_row_nth)
next
  case (Suc d)
  let ?p = "parent b (Suc d) r"
  have pin: "level_start b d \<le> ?p" "?p < level_start b (Suc d)"
    using parent_in_level [OF pos Suc.prems(1,2,3)] by simp_all
  have dL: "d < length b" using Suc.prems(1) by simp
  have IH: "chain_row b n d ?p ! j = (if \<exists>k\<le>d. j = ancestor b d ?p k then 1 else 0)"
    by (rule Suc.IH [OF dL pin Suc.prems(4)])
  have below: "ancestor b d ?p k < r" if "k \<le> d" for k
  proof -
    have "ancestor b d ?p k < level_start b (Suc (d - k))"
      using ancestor_level [OF pos dL pin that] by simp
    moreover have "level_start b (Suc (d - k)) \<le> level_start b (Suc d)"
      by (rule level_start_mono [OF pos]) simp
    ultimately show ?thesis using Suc.prems(2) by simp
  qed
  have ex: "(\<exists>k\<le>Suc d. j = ancestor b (Suc d) r k) \<longleftrightarrow> j = r \<or> (\<exists>k\<le>d. j = ancestor b d ?p k)"
  proof
    assume "\<exists>k\<le>Suc d. j = ancestor b (Suc d) r k"
    then obtain k where k: "k \<le> Suc d" "j = ancestor b (Suc d) r k" by blast
    show "j = r \<or> (\<exists>k\<le>d. j = ancestor b d ?p k)"
    proof (cases k)
      case 0 then show ?thesis using k by simp
    next
      case (Suc k')
      then have "j = ancestor b d ?p k'" using k(2) by (simp only: ancestor_shift)
      moreover have "k' \<le> d" using k(1) Suc by simp
      ultimately show ?thesis by blast
    qed
  next
    assume "j = r \<or> (\<exists>k\<le>d. j = ancestor b d ?p k)"
    then show "\<exists>k\<le>Suc d. j = ancestor b (Suc d) r k"
    proof
      assume "j = r"
      then have "j = ancestor b (Suc d) r 0" by simp
      then show ?thesis by blast
    next
      assume "\<exists>k\<le>d. j = ancestor b d ?p k"
      then obtain k where k: "k \<le> d" "j = ancestor b d ?p k" by blast
      then have "j = ancestor b (Suc d) r (Suc k)" by (simp only: ancestor_shift)
      moreover have "Suc k \<le> Suc d" using k(1) by simp
      ultimately show ?thesis by blast
    qed
  qed
  have nth: "chain_row b n (Suc d) r ! j = eye_row n r ! j + chain_row b n d ?p ! j"
    using Suc.prems(4) by simp
  show ?case
  proof (cases "j = r")
    case True
    have "\<not> (\<exists>k\<le>d. j = ancestor b d ?p k)"
    proof
      assume "\<exists>k\<le>d. j = ancestor b d ?p k"
      then obtain k where k: "k \<le> d" "j = ancestor b d ?p k" by blast
      have "ancestor b d ?p k < r" by (rule below [OF k(1)])
      then show False using k(2) True by simp
    qed
    then show ?thesis using nth IH ex True Suc.prems(4) by (simp add: eye_row_nth)
  next
    case False
    then show ?thesis using nth IH ex Suc.prems(4) by (simp add: eye_row_nth)
  qed
qed

lemma sum_list_map2_add:
  "length xs = length ys \<Longrightarrow> sum_list (map2 (+) xs ys) = sum_list xs + sum_list ys"
  for xs :: "nat list"
  by (induction xs ys rule: list_induct2) simp_all

lemma sum_list_eye_row: "r < n \<Longrightarrow> sum_list (eye_row n r) = 1"
proof -
  assume r: "r < n"
  have "sum_list (eye_row n r) = (\<Sum>j\<leftarrow>[0..<n]. if r = j then 1 else 0)"
    by (simp add: eye_row_def)
  also have "\<dots> = (\<Sum>j = 0..<n. if r = j then 1 else 0)"
    by (simp add: sum_list_distinct_conv_sum_set)
  also have "\<dots> = 1" using r by simp
  finally show ?thesis .
qed

lemma chain_row_sum:
  fixes b :: "int list"
  assumes pos: "\<forall>x\<in>set b. 0 < x"
  shows "d < length b \<Longrightarrow> level_start b d \<le> r \<Longrightarrow> r < level_start b (Suc d)
         \<Longrightarrow> level_start b (Suc d) \<le> n \<Longrightarrow> sum_list (chain_row b n d r) = Suc d"
proof (induction d arbitrary: r)
  case 0
  then show ?case by (simp add: sum_list_eye_row)
next
  case (Suc d)
  let ?p = "parent b (Suc d) r"
  have pin: "level_start b d \<le> ?p" "?p < level_start b (Suc d)"
    using parent_in_level [OF pos Suc.prems(1,2,3)] by simp_all
  have dL: "d < length b" using Suc.prems(1) by simp
  have "level_start b (Suc d) \<le> level_start b (Suc (Suc d))"
    by (rule level_start_mono [OF pos]) simp
  then have top: "level_start b (Suc d) \<le> n" using Suc.prems(4) by simp
  have IH: "sum_list (chain_row b n d ?p) = Suc d" by (rule Suc.IH [OF dL pin top])
  have "r < n" using Suc.prems(3,4) by simp
  then have "sum_list (eye_row n r) = 1" by (rule sum_list_eye_row)
  then show ?case using IH by (simp add: sum_list_map2_add)
qed

lemma count_ones:
  "\<forall>x\<in>set xs. x = 0 \<or> x = 1 \<Longrightarrow> length (filter (\<lambda>x. x = 1) xs) = sum_list xs"
  for xs :: "nat list"
  by (induction xs) auto

section \<open>The buffers of a tree of positive choices\<close>

text \<open>
  Claim C4.  For a non-empty \<open>medusa_choices\<close> of positive integers (small enough for 64-bit
  arithmetic) \<open>generate_medusa_buffers\<close> returns buffers.  With \<open>N\<close> the sum of the cumulative
  products \<open>b[0] * ... * b[i]\<close>, the attention mask is \<open>N \<times> N\<close>, the tree indices and the
  position ids have length \<open>N\<close>, \<open>buf_retrieve_indices\<close> has one row of length \<open>L\<close> for each of the
  \<open>b[0] * ... * b[L-1]\<close> paths, and its rows are pairwise distinct.
\<close>

theorem medusa_buffers_shape:
  fixes b :: "int list"
  assumes "b \<noteq> []" and "\<forall>x\<in>set b. 0 < x" and "fits_int64 b"
  shows "\<exists>buf. generate_medusa_buffers b = Inr buf
    \<and> sum_list (cumprod b) = (\<Sum>i<length b. prod_list (take (Suc i) b))
    \<and> length (buf_medusa_attn_mask buf) = nat (sum_list (cumprod b))
    \<and> (\<forall>row\<in>set (buf_medusa_attn_mask buf). length row = nat (sum_list (cumprod b)))
    \<and> length (buf_tree_indices buf) = nat (sum_list (cumprod b))
    \<and> length (buf_medusa_position_ids buf) = nat (sum_list (cumprod b))
    \<and> length (buf_retrieve_indices buf) = nat (prod_list b)
    \<and> (\<forall>row\<in>set (buf_retrieve_indices buf). length row = length b)
    \<and> distinct (buf_retrieve_indices buf)"
proof -
  let ?N = "nat (sum_list (cumprod b))"
  let ?L = "length b"
  note pos = assms(2)
  obtain buf where run: "generate_medusa_buffers b = Inr buf"
    and lm: "length (buf_medusa_attn_mask buf) = ?N"
    and rows: "\<forall>d<?L. \<forall>r. level_start b d \<le> r \<longrightarrow> r < level_start b (Suc d)
          \<longrightarrow> buf_medusa_attn_mask buf ! r = chain_row b ?N d r"
    and lt: "length (buf_tree_indices buf) = ?N"
    and ids: "buf_medusa_position_ids buf
        = concat (map (\<lambda>i. replicate (nat (cumprod b ! i)) i) [0..<?L])"
    and lr: "length (buf_retrieve_indices buf) = nat (prod_list b)"
    and ret: "\<forall>r<nat (prod_list b). length (buf_retrieve_indices buf ! r) = ?L
          \<and> (\<forall>j<?L. buf_retrieve_indices buf ! r ! j
                = sum_list (take j (cumprod b))
                  + int (r div nat (prod_list b div cumprod b ! j)))"
    using generate_medusa_buffers_positive [OF assms(1,2)] by blast
  have "sum_list (cumprod b) = (\<Sum>i = 0..<length (cumprod b). cumprod b ! i)"
    by (rule sum_list_sum_nth)
  also have "\<dots> = (\<Sum>i = 0..<?L. prod_list (take (Suc i) b))"
    by (rule sum.cong) (simp_all add: cumprod_nth)
  finally have total: "sum_list (cumprod b) = (\<Sum>i<?L. prod_list (take (Suc i) b))"
    by (simp add: lessThan_atLeast0)
  have mrows: "\<forall>row\<in>set (buf_medusa_attn_mask buf). length row = ?N"
  proof
    fix row assume "row \<in> set (buf_medusa_attn_mask buf)"
    then obtain r where r: "r < ?N" "buf_medusa_attn_mask buf ! r = row"
      using lm unfolding in_set_conv_nth by auto
    have "r < level_start b ?L" using r(1) by (simp add: level_start_total)
    then obtain d where "d < ?L" "level_start b d \<le> r" "r < level_start b (Suc d)"
      using level_exists [OF pos] by blast
    then have "buf_medusa_attn_mask buf ! r = chain_row b ?N d r" using rows by blast
    then show "length row = ?N" using r(2) by simp
  qed
  have lp: "length (buf_medusa_position_ids buf) = ?N"
    using position_ids_levels(1) [OF pos, of ?L] ids by simp
  have rrows: "\<forall>row\<in>set (buf_retrieve_indices buf). length row = ?L"
  proof
    fix row assume "row \<in> set (buf_retrieve_indices buf)"
    then obtain r where "r < nat (prod_list b)" "buf_retrieve_indices buf ! r = row"
      using lr unfolding in_set_conv_nth by auto
    then show "length row = ?L" using ret by auto
  qed
  have last: "buf_retrieve_indices buf ! r ! (?L - 1) = sum_list (take (?L - 1) (cumprod b)) + int r"
    if r: "r < nat (prod_list b)" for r
  proof -
    have l: "?L - 1 < ?L" using assms(1) by simp
    have "cumprod b ! (?L - 1) = prod_list (take (Suc (?L - 1)) b)" using l by (rule cumprod_nth)
    then have "cumprod b ! (?L - 1) = prod_list b" using assms(1) by simp
    moreover have "0 < prod_list b" using pos by (rule prod_list_pos)
    ultimately have "nat (prod_list b div cumprod b ! (?L - 1)) = 1" by simp
    then show ?thesis using ret r l by simp
  qed
  have dist: "distinct (buf_retrieve_indices buf)"
    unfolding distinct_conv_nth
  proof (intro allI impI)
    fix i j assume i: "i < length (buf_retrieve_indices buf)" and j: "j < length (buf_retrieve_indices buf)"
      and ne: "i \<noteq> j"
    have "buf_retrieve_indices buf ! i ! (?L - 1) \<noteq> buf_retrieve_indices buf ! j ! (?L - 1)"
      using last [of i] last [of j] i j lr ne by simp
    then show "buf_retrieve_indices buf ! i \<noteq> buf_retrieve_indices buf ! j" by auto
  qed
  show ?thesis
    by (rule exI [of _ buf]) (intro conjI run total lm mrows lt lp lr rrows dist)
qed

theorem medusa_buffers_shape_witness:
  "\<exists>buf. generate_medusa_buffers [2, 3] = Inr buf
     \<and> length (buf_medusa_attn_mask buf) = 8 \<and> length (buf_tree_indices buf) = 8
     \<and> length (buf_medusa_position_ids buf) = 8 \<and> length (buf_retrieve_indices buf) = 6
     \<and> map length (buf_retrieve_indices buf) = replicate 6 2
     \<and> distinct (buf_retrieve_indices buf)"
proof -
  have h1: "[2, 3 :: int] \<noteq> []" by simp
  have h2: "\<forall>x\<in>set [2, 3 :: int]. 0 < x" by simp
  have h3: "fits_int64 [2, 3]" by (simp add: fits_int64_def cumprod_def)
  have n: "nat (sum_list (cumprod [2, 3 :: int])) = 8" by (simp add: cumprod_def)
  have p: "nat (prod_list [2, 3 :: int]) = 6" by simp
  from medusa_buffers_shape [OF h1 h2 h3]
  obtain buf where "generate_medusa_buffers [2, 3] = Inr buf"
    and "length (buf_medusa_attn_mask buf) = nat (sum_list (cumprod [2, 3 :: int]))"
    and "length (buf_tree_indices buf) = nat (sum_list (cumprod [2, 3 :: int]))"
    and "length (buf_medusa_position_ids buf) = nat (sum_list (cumprod [2, 3 :: int]))"
    and lr: "length (buf_retrieve_indices buf) = nat (prod_list [2, 3 :: int])"
    and rows: "\<forall>row\<in>set (buf_retrieve_indices buf). length row = length [2, 3 :: int]"
    and "distinct (buf_retrieve_indices buf)"
    by (elim exE conjE)
  moreover have "map length (buf_retrieve_indices buf) = replicate 6 2"
  proof (rule replicate_eqI)
    show "length (map length (buf_retrieve_indices buf)) = 6" using lr p by simp
  next
    fix y assume "y \<in> set (map length (buf_retrieve_indices buf))"
    then show "y = 2" using rows by auto
  qed
  ultimately show ?thesis unfolding n p by (intro exI conjI)
qed

text \<open>
  Claim C5.  For a non-empty \<open>medusa_choices\<close> of positive integers (small enough for 64-bit
  arithmetic) and every node \<open>r\<close> of the tree, whose depth \<open>d\<close> is its position id, row \<open>r\<close> of the
  attention mask has a one exactly in the columns of \<open>r\<close> and of the nodes reached from \<open>r\<close> by
  one to \<open>d\<close> steps to the parent, and a zero in every other column; the ones are \<open>d + 1\<close> in
  number.
\<close>

theorem attention_mask_ancestors:
  fixes b :: "int list"
  assumes "b \<noteq> []" and "\<forall>x\<in>set b. 0 < x" and "fits_int64 b"
  shows "\<exists>buf. generate_medusa_buffers b = Inr buf
    \<and> length (buf_medusa_attn_mask buf) = nat (sum_list (cumprod b))
    \<and> length (buf_medusa_position_ids buf) = nat (sum_list (cumprod b))
    \<and> (\<forall>r<nat (sum_list (cumprod b)).
          buf_medusa_position_ids buf ! r < length b
          \<and> level_start b (buf_medusa_position_ids buf ! r) \<le> r
          \<and> r < level_start b (Suc (buf_medusa_position_ids buf ! r))
          \<and> length (buf_medusa_attn_mask buf ! r) = nat (sum_list (cumprod b))
          \<and> (\<forall>j<nat (sum_list (cumprod b)).
                buf_medusa_attn_mask buf ! r ! j
                  = (if \<exists>k\<le>buf_medusa_position_ids buf ! r.
                          j = ancestor b (buf_medusa_position_ids buf ! r) r k then 1 else 0))
          \<and> length (filter (\<lambda>x. x = 1) (buf_medusa_attn_mask buf ! r))
              = Suc (buf_medusa_position_ids buf ! r))"
proof -
  let ?N = "nat (sum_list (cumprod b))"
  let ?L = "length b"
  note pos = assms(2)
  obtain buf where run: "generate_medusa_buffers b = Inr buf"
    and lm: "length (buf_medusa_attn_mask buf) = ?N"
    and rows: "\<forall>d<?L. \<forall>r. level_start b d \<le> r \<longrightarrow> r < level_start b (Suc d)
          \<longrightarrow> buf_medusa_attn_mask buf ! r = chain_row b ?N d r"
    and ids: "buf_medusa_position_ids buf
        = concat (map (\<lambda>i. replicate (nat (cumprod b ! i)) i) [0..<?L])"
    using generate_medusa_buffers_positive [OF assms(1,2)] by blast
  have lp: "length (buf_medusa_position_ids buf) = ?N"
    using position_ids_levels(1) [OF pos, of ?L] ids by simp
  have node: "buf_medusa_position_ids buf ! r < ?L
          \<and> level_start b (buf_medusa_position_ids buf ! r) \<le> r
          \<and> r < level_start b (Suc (buf_medusa_position_ids buf ! r))
          \<and> length (buf_medusa_attn_mask buf ! r) = ?N
          \<and> (\<forall>j<?N. buf_medusa_attn_mask buf ! r ! j
                  = (if \<exists>k\<le>buf_medusa_position_ids buf ! r.
                          j = ancestor b (buf_medusa_position_ids buf ! r) r k then 1 else 0))
          \<and> length (filter (\<lambda>x. x = 1) (buf_medusa_attn_mask buf ! r))
              = Suc (buf_medusa_position_ids buf ! r)"
    if r: "r < ?N" for r
  proof -
    have "r < level_start b ?L" using r by (simp add: level_start_total)
    then obtain d where d: "d < ?L" and lo: "level_start b d \<le> r"
      and hi: "r < level_start b (Suc d)"
      using level_exists [OF pos] by blast
    have "concat (map (\<lambda>i. replicate (nat (cumprod b ! i)) i) [0..<?L]) ! r = d"
      using position_ids_levels(2) [OF pos order_refl d] lo hi by (simp add: level_start_def)
    then have pd: "buf_medusa_position_ids buf ! r = d" using ids by simp
    have row: "buf_medusa_attn_mask buf ! r = chain_row b ?N d r" using rows d lo hi by blast
    have top: "level_start b (Suc d) \<le> ?N"
      using level_start_mono [OF pos, of "Suc d" ?L] d by (simp add: level_start_total)
    have ent: "\<forall>j<?N. chain_row b ?N d r ! j = (if \<exists>k\<le>d. j = ancestor b d r k then 1 else 0)"
      using chain_row_entries [OF pos d lo hi] by blast
    have "\<forall>x\<in>set (chain_row b ?N d r). x = 0 \<or> x = 1"
    proof
      fix x assume "x \<in> set (chain_row b ?N d r)"
      then obtain j where j: "j < ?N" "chain_row b ?N d r ! j = x"
        unfolding in_set_conv_nth by auto
      have "chain_row b ?N d r ! j = (if \<exists>k\<le>d. j = ancestor b d r k then 1 else 0)"
        using ent j(1) by blast
      then have "x = (if \<exists>k\<le>d. j = ancestor b d r k then 1 else 0)" using j(2) by simp
      then show "x = 0 \<or> x = 1" by (cases "\<exists>k\<le>d. j = ancestor b d r k") simp_all
    qed
    then have "length (filter (\<lambda>x. x = 1) (chain_row b ?N d r)) = sum_list (chain_row b ?N d r)"
      by (rule count_ones)
    also have "\<dots> = Suc d" by (rule chain_row_sum [OF pos d lo hi top])
    finally have cnt: "length (filter (\<lambda>x. x = 1) (chain_row b ?N d r)) = Suc d" .
    show ?thesis unfolding pd row using d lo hi ent cnt by simp
  qed
  show ?thesis
    by (rule exI [of _ buf]) (intro conjI run lm lp allI impI node)
qed

theorem attention_mask_ancestors_witness:
  "\<exists>buf. generate_medusa_buffers [2, 3] = Inr buf
     \<and> buf_medusa_position_ids buf ! 5 = 1
     \<and> buf_medusa_attn_mask buf ! 5 ! 5 = 1 \<and> buf_medusa_attn_mask buf ! 5 ! 1 = 1
     \<and> buf_medusa_attn_mask buf ! 5 ! 0 = 0 \<and> buf_medusa_attn_mask buf ! 5 ! 4 = 0
     \<and> length (filter (\<lambda>x. x = 1) (buf_medusa_attn_mask buf ! 5)) = 2"
proof -
  have h1: "[2, 3 :: int] \<noteq> []" by simp
  have h2: "\<forall>x\<in>set [2, 3 :: int]. 0 < x" by simp
  have h3: "fits_int64 [2, 3]" by (simp add: fits_int64_def cumprod_def)
  have n: "nat (sum_list (cumprod [2, 3 :: int])) = 8" by (simp add: cumprod_def)
  have l1: "level_start [2, 3] 1 = 2" by (simp add: level_start_def cumprod_def)
  from attention_mask_ancestors [OF h1 h2 h3]
  obtain buf where run: "generate_medusa_buffers [2, 3] = Inr buf"
    and all: "\<forall>r<nat (sum_list (cumprod [2, 3 :: int])).
          buf_medusa_position_ids buf ! r < length [2, 3 :: int]
          \<and> level_start [2, 3] (buf_medusa_position_ids buf ! r) \<le> r
          \<and> r < level_start [2, 3] (Suc (buf_medusa_position_ids buf ! r))
          \<and> length (buf_medusa_attn_mask buf ! r) = nat (sum_list (cumprod [2, 3 :: int]))
          \<and> (\<forall>j<nat (sum_list (cumprod [2, 3 :: int])).
                buf_medusa_attn_mask buf ! r ! j
                  = (if \<exists>k\<le>buf_medusa_position_ids buf ! r.
                          j = ancestor [2, 3] (buf_medusa_position_ids buf ! r) r k then 1 else 0))
          \<and> length (filter (\<lambda>x. x = 1) (buf_medusa_attn_mask buf ! r))
              = Suc (buf_medusa_position_ids buf ! r)"
    by (elim exE conjE)
  define d where "d = buf_medusa_position_ids buf ! 5"
  have five: "(5::nat) < nat (sum_list (cumprod [2, 3 :: int]))" using n by simp
  have d2: "d < 2" and hi: "5 < level_start [2, 3] (Suc d)"
    and ent: "\<forall>j<8. buf_medusa_attn_mask buf ! 5 ! j
                = (if \<exists>k\<le>d. j = ancestor [2, 3] d 5 k then 1 else 0)"
    and cnt: "length (filter (\<lambda>x. x = 1) (buf_medusa_attn_mask buf ! 5)) = Suc d"
    using all [rule_format, OF five] unfolding d_def n by simp_all
  have d1: "d = 1"
  proof (rule ccontr)
    assume "d \<noteq> 1"
    then have "d = 0" using d2 by simp
    then show False using hi l1 by simp
  qed
  have par: "parent [2, 3] 1 5 = 1" by (simp add: parent_def level_start_def cumprod_def)
  have anc: "(\<exists>k\<le>1. j = ancestor [2, 3] 1 5 k) \<longleftrightarrow> j = 5 \<or> j = 1" for j
  proof
    assume "\<exists>k\<le>1. j = ancestor [2, 3] 1 5 k"
    then obtain k where k: "k \<le> 1" "j = ancestor [2, 3] 1 5 k" by blast
    then have "k = 0 \<or> k = 1" by auto
    then show "j = 5 \<or> j = 1" using k(2) par by auto
  next
    assume "j = 5 \<or> j = 1"
    then show "\<exists>k\<le>1. j = ancestor [2, 3] 1 5 k"
    proof
      assume "j = 5"
      then have "j = ancestor [2, 3] 1 5 0" by simp
      then show ?thesis by blast
    next
      assume "j = 1"
      then have "j = ancestor [2, 3] 1 5 1" using par by simp
      then show ?thesis by blast
    qed
  qed
  have e: "buf_medusa_attn_mask buf ! 5 ! j = (if j = 5 \<or> j = 1 then 1 else 0)" if "j < 8" for j
    using ent that anc unfolding d1 by simp
  have "buf_medusa_position_ids buf ! 5 = 1" using d1 d_def by simp
  moreover have "buf_medusa_attn_mask buf ! 5 ! 5 = 1" using e [of 5] by simp
  moreover have "buf_medusa_attn_mask buf ! 5 ! 1 = 1" using e [of 1] by simp
  moreover have "buf_medusa_attn_mask buf ! 5 ! 0 = 0" using e [of 0] by simp
  moreover have "buf_medusa_attn_mask buf ! 5 ! 4 = 0" using e [of 4] by simp
  moreover have "length (filter (\<lambda>x. x = 1) (buf_medusa_attn_mask buf ! 5)) = 2"
    using cnt d1 by simp
  ultimately show ?thesis using run by (intro exI conjI)
qed

section \<open>Choices that are empty or not positive\<close>




end
